theory Spec2Isabelle
  imports Main
begin

section \<open>The reaction exporter of \<^verbatim>\<open>src/index.js\<close>\<close>

text \<open>
  The bot has one command, \<^verbatim>\<open>/export-reactions\<close>. Its handler parses a message
  reference, resolves a channel, fetches the message, pages through the users of every
  reaction group and replies with a CSV file.

  Strings of the program are modelled as \<^typ>\<open>string\<close>, read as the UTF-8 bytes of
  the JavaScript string: the program only concatenates strings, compares them for
  equality and matches ASCII patterns on them, and the final buffer is encoded as UTF-8
  (\<^verbatim>\<open>Buffer.from(csv, 'utf8')\<close>). A value that may be \<^verbatim>\<open>null\<close> or
  \<^verbatim>\<open>undefined\<close> is an \<^typ>\<open>'a option\<close>.
\<close>

subsection \<open>Parsing the message reference (lines 78-82)\<close>

text \<open>
  \<^verbatim>\<open>
  function parseMessageRef(input) {
    const match = input.match(/discord\.com\/channels\/(\d+)\/(\d+)\/(\d+)/);
    if (match) return { guildId: match[1], channelId: match[2], messageId: match[3] };
    return { messageId: input };
  }
  \<close>
  The fields \<^verbatim>\<open>guildId\<close> and \<^verbatim>\<open>channelId\<close> are absent from the second
  object: reading them gives \<^verbatim>\<open>undefined\<close>.
\<close>

record message_ref =
  guildId :: "string option"
  channelId :: "string option"
  messageId :: string

text \<open>\<^verbatim>\<open>\d\<close> matches the ten ASCII digits.\<close>

definition is_digit :: "char \<Rightarrow> bool" where
  "is_digit c = (c \<in> set ''0123456789'')"

text \<open>Matching a literal piece of the pattern at the start of a string.\<close>

fun literal :: "string \<Rightarrow> string \<Rightarrow> string option" where
  "literal [] s = Some s"
| "literal (p # ps) [] = None"
| "literal (p # ps) (c # cs) = (if p = c then literal ps cs else None)"

text \<open>
  A group \<^verbatim>\<open>(\d+)\<close> is greedy: it takes the longest run of digits, which must not
  be empty. Each group of the pattern is followed by \<^verbatim>\<open>/\<close> or by the end of the
  pattern, so giving back digits never makes a failed match succeed: the character after
  a shorter run is a digit, not \<^verbatim>\<open>/\<close>.
\<close>

definition digits1 :: "string \<Rightarrow> (string \<times> string) option" where
  "digits1 s =
     (let d = takeWhile is_digit s
      in if d = [] then None else Some (d, dropWhile is_digit s))"

text \<open>The whole pattern, tried at the start of a string.\<close>

definition match_here :: "string \<Rightarrow> (string \<times> string \<times> string) option" where
  "match_here s =
     (case literal ''discord.com/channels/'' s of
        None \<Rightarrow> None
      | Some s1 \<Rightarrow>
          (case digits1 s1 of
             None \<Rightarrow> None
           | Some (g, s2) \<Rightarrow>
               (case literal ''/'' s2 of
                  None \<Rightarrow> None
                | Some s3 \<Rightarrow>
                    (case digits1 s3 of
                       None \<Rightarrow> None
                     | Some (c, s4) \<Rightarrow>
                         (case literal ''/'' s4 of
                            None \<Rightarrow> None
                          | Some s5 \<Rightarrow>
                              (case digits1 s5 of
                                 None \<Rightarrow> None
                               | Some (m, s6) \<Rightarrow> Some (g, c, m)))))))"

text \<open>
  \<^verbatim>\<open>input.match(re)\<close> with a pattern that has no \<^verbatim>\<open>g\<close> flag tries the pattern
  at every position from the left and returns the first match, or \<^verbatim>\<open>null\<close>.
\<close>

fun match_re :: "string \<Rightarrow> (string \<times> string \<times> string) option" where
  "match_re [] = match_here []"
| "match_re (c # cs) =
     (case match_here (c # cs) of
        Some r \<Rightarrow> Some r
      | None \<Rightarrow> match_re cs)"

definition parseMessageRef :: "string \<Rightarrow> message_ref" where
  "parseMessageRef input =
     (case match_re input of
        Some (g, c, m) \<Rightarrow> \<lparr>guildId = Some g, channelId = Some c, messageId = m\<rparr>
      | None \<Rightarrow> \<lparr>guildId = None, channelId = None, messageId = input\<rparr>)"

subsection \<open>The platform's objects\<close>

text \<open>
  The client library's objects, with the fields and methods the handler reads. A method
  that awaits the platform is a function from its arguments to either an error thrown or
  the value returned: during one invocation the platform answers equal requests equally.
  A \<^verbatim>\<open>Collection\<close> (a \<^verbatim>\<open>Map\<close> in insertion order) is the list of its
  entries. The handler is an \<^verbatim>\<open>async\<close> function that awaits every call before the
  next statement, so one invocation is a sequential run.
\<close>

datatype error = TypeError | Thrown string

record user =
  username :: string
  discriminator :: string
  user_id :: string

record reaction_emoji =
  emoji_name :: "string option"
  emoji_id :: "string option"

record fetch_opts =
  limit :: nat
  after :: "string option"

type_synonym batch = "(string \<times> user) list"

record reaction =
  emoji :: "reaction_emoji option"
  users_fetch :: "fetch_opts \<Rightarrow> error + batch"

record message =
  reactions_cache :: "(string \<times> reaction) list"

record channel =
  messages_fetch :: "string \<Rightarrow> error + message"

record guild =
  channels_cache_get :: "string \<Rightarrow> channel option"

record interaction =
  isChatInputCommand :: bool
  commandName :: string
  inGuild :: bool
  guild :: "guild option"
  getString_message :: string
  getChannel_channel :: "channel option"
  getBoolean_include_user_ids :: "bool option"

text \<open>
  What the handler does to the outside, in order: the replies it sends, the fetches it
  issues (a page fetch with its options and what came back), what it logs, and an
  exception that leaves the handler. A reply is an event only: the calls
  \<^verbatim>\<open>reply\<close>, \<^verbatim>\<open>deferReply\<close> and \<^verbatim>\<open>editReply\<close> are taken to return.
\<close>

record attachment =
  att_name :: string
  att_data :: string

datatype event =
    Reply string bool
  | DeferReply bool
  | EditReply string
  | EditReplyFiles string "attachment list"
  | MessagesFetch string
  | UsersFetch fetch_opts "error + batch"
  | ConsoleError error
  | Uncaught error

subsection \<open>The replies (lines 89, 103, 106, 114, 145, 150, 154)\<close>

definition cross_mark :: string where
  "cross_mark = [CHR 0xE2, CHR 0x9D, CHR 0x8C]"

definition msg_not_in_server :: string where
  "msg_not_in_server = cross_mark @ '' Use this command inside a server.''"

definition msg_missing_channel :: string where
  "msg_missing_channel = cross_mark @ '' Provide a channel when using a bare message ID.''"

definition msg_channel_inaccessible :: string where
  "msg_channel_inaccessible = cross_mark @ '' I cannot access that channel.''"

definition msg_message_fetch_failed :: string where
  "msg_message_fetch_failed =
     cross_mark @ '' Could not fetch that message. Check the channel, ID/URL, and my permissions.''"

definition msg_reaction_fetch_failed :: string where
  "msg_reaction_fetch_failed =
     cross_mark @ '' Failed to fetch reaction users. Ensure I have **View Channel**, **Read Message History**, and **Read Reactions** permissions.''"

definition msg_no_reactions :: string where
  "msg_no_reactions =
     [CHR 0xE2, CHR 0x84, CHR 0xB9, CHR 0xEF, CHR 0xB8, CHR 0x8F]
       @ '' That message has no reactions to export.''"

definition msg_export_complete :: string where
  "msg_export_complete =
     [CHR 0xE2, CHR 0x9C, CHR 0x85] @ '' Export complete. Here''
       @ [CHR 0xE2, CHR 0x80, CHR 0x99] @ ''s your file:''"

subsection \<open>Building the CSV (lines 117-141)\<close>

text \<open>
  \<^verbatim>\<open>
  const header = includeIds ? 'Emoji,User,User ID\n' : 'Emoji,User\n';
  let csv = header;
  const addLine = (emoji, user) => {
    const tag = `${user.username}#${user.discriminator}`;
    csv += includeIds ? `${emoji},${tag},${user.id}\n` : `${emoji},${tag}\n`;
  };
  \<close>
\<close>

definition header :: "bool \<Rightarrow> string" where
  "header includeIds =
     (if includeIds then ''Emoji,User,User ID'' @ [CHR 0x0A] else ''Emoji,User'' @ [CHR 0x0A])"

definition csv_line :: "bool \<Rightarrow> string \<Rightarrow> user \<Rightarrow> string" where
  "csv_line includeIds emoji_label user =
     (let tag = username user @ ''#'' @ discriminator user
      in if includeIds then emoji_label @ '','' @ tag @ '','' @ user_id user @ [CHR 0x0A]
         else emoji_label @ '','' @ tag @ [CHR 0x0A])"

definition addLine :: "bool \<Rightarrow> string \<Rightarrow> user \<Rightarrow> string \<Rightarrow> string" where
  "addLine includeIds emoji_label user csv = csv @ csv_line includeIds emoji_label user"

text \<open>
  \<^verbatim>\<open>
  const emojiLabel = reaction.emoji?.id
    ? `${reaction.emoji.name}:${reaction.emoji.id}` // custom emoji
    : reaction.emoji?.name ?? 'unknown';
  \<close>
  An ID is truthy when it is a string that is not empty. A template literal prints
  \<^verbatim>\<open>null\<close> as the four letters \<^verbatim>\<open>null\<close>.
\<close>

definition truthy :: "string option \<Rightarrow> bool" where
  "truthy x = (case x of None \<Rightarrow> False | Some s \<Rightarrow> s \<noteq> [])"

definition template :: "string option \<Rightarrow> string" where
  "template x = (case x of None \<Rightarrow> ''null'' | Some s \<Rightarrow> s)"

definition emojiLabel :: "reaction \<Rightarrow> string" where
  "emojiLabel r =
     (case emoji r of
        None \<Rightarrow> ''unknown''
      | Some e \<Rightarrow>
          if truthy (emoji_id e) then template (emoji_name e) @ '':'' @ template (emoji_id e)
          else (case emoji_name e of None \<Rightarrow> ''unknown'' | Some n \<Rightarrow> n))"

text \<open>
  The state of the export: the buffer \<^verbatim>\<open>csv\<close> and the events so far. A loop ends
  normally or by an exception.
\<close>

record export_state =
  csv :: string
  events :: "event list"

datatype completion = Normal | Throw error

text \<open>
  \<^verbatim>\<open>
  let lastId;
  while (true) {
    const batch = await reaction.users.fetch({ limit: 100, after: lastId });
    if (batch.size === 0) break;
    for (const [, user] of batch) addLine(emojiLabel, user);
    lastId = [...batch.keys()].pop();
    if (batch.size < 100) break;
  }
  \<close>
  The loop has no bound of its own, so it is a partial function: \<open>None\<close> is a loop
  that never ends. \<open>last\<close> is applied to a batch that is not empty.
\<close>

partial_function (option) paginate ::
  "bool \<Rightarrow> reaction \<Rightarrow> string \<Rightarrow> string option \<Rightarrow> export_state
     \<Rightarrow> (completion \<times> export_state) option" where
  "paginate includeIds r emoji_label lastId st =
     (let opts = \<lparr>limit = 100, after = lastId\<rparr>;
          res = users_fetch r opts;
          st1 = st\<lparr>events := events st @ [UsersFetch opts res]\<rparr>
      in case res of
           Inl err \<Rightarrow> Some (Throw err, st1)
         | Inr batch \<Rightarrow>
             if length batch = 0 then Some (Normal, st1)
             else
               let st2 = st1\<lparr>csv := foldl (\<lambda>csv (key, user). addLine includeIds emoji_label user csv)
                                      (csv st1) batch\<rparr>;
                   lastId' = Some (last (map fst batch))
               in if length batch < 100 then Some (Normal, st2)
                  else paginate includeIds r emoji_label lastId' st2)"

declare paginate.simps [code]

text \<open>
  \<^verbatim>\<open>for (const [, reaction] of message.reactions.cache) { ... }\<close>: one group after
  the other; an exception in a page fetch leaves the loop.
\<close>

fun export_loop ::
  "bool \<Rightarrow> (string \<times> reaction) list \<Rightarrow> export_state \<Rightarrow> (completion \<times> export_state) option" where
  "export_loop includeIds [] st = Some (Normal, st)"
| "export_loop includeIds ((key, r) # rest) st =
     (case paginate includeIds r (emojiLabel r) None st of
        None \<Rightarrow> None
      | Some (Throw err, st') \<Rightarrow> Some (Throw err, st')
      | Some (Normal, st') \<Rightarrow> export_loop includeIds rest st')"

subsection \<open>The handler (lines 85-155)\<close>

text \<open>
  Lines 117-155: the export of a fetched message and the reply. The \<^verbatim>\<open>catch\<close> of
  line 142 logs the error and replies; after the loops the buffer is compared with the
  header.
\<close>

definition export_reply :: "bool \<Rightarrow> message \<Rightarrow> event list option" where
  "export_reply includeIds msg =
     (case export_loop includeIds (reactions_cache msg) \<lparr>csv = header includeIds, events = []\<rparr> of
        None \<Rightarrow> None
      | Some (Throw err, st) \<Rightarrow>
          Some (events st @ [ConsoleError err, EditReply msg_reaction_fetch_failed])
      | Some (Normal, st) \<Rightarrow>
          if csv st = header includeIds then Some (events st @ [EditReply msg_no_reactions])
          else Some (events st @
                 [EditReplyFiles msg_export_complete
                    [\<lparr>att_name = ''reactions.csv'', att_data = csv st\<rparr>]]))"

text \<open>
  Lines 99-107: the channel is the option if given, else the guild's cached channel of
  the reference's \<^verbatim>\<open>channelId\<close>; \<^verbatim>\<open>!ref.channelId\<close> holds of
  \<^verbatim>\<open>undefined\<close> and of the empty string. \<open>Inl\<close> is an early return with the
  events it made. \<^verbatim>\<open>interaction.guild\<close> is \<^verbatim>\<open>null\<close> when the guild is not cached:
  reading \<^verbatim>\<open>channels\<close> of it throws, outside every \<^verbatim>\<open>try\<close>.
\<close>

definition resolve_channel :: "interaction \<Rightarrow> message_ref \<Rightarrow> event list + channel" where
  "resolve_channel i ref =
     (case getChannel_channel i of
        Some ch \<Rightarrow> Inr ch
      | None \<Rightarrow>
          (case channelId ref of
             None \<Rightarrow> Inl [EditReply msg_missing_channel]
           | Some cid \<Rightarrow>
               if cid = [] then Inl [EditReply msg_missing_channel]
               else (case guild i of
                       None \<Rightarrow> Inl [Uncaught TypeError]
                     | Some g \<Rightarrow>
                         (case channels_cache_get g cid of
                            None \<Rightarrow> Inl [EditReply msg_channel_inaccessible]
                          | Some ch \<Rightarrow> Inr ch))))"

text \<open>
  Line 94: \<^verbatim>\<open>interaction.options.getBoolean('include_user_ids') ?? true\<close>.
\<close>

definition includeIds_of :: "interaction \<Rightarrow> bool" where
  "includeIds_of i = (case getBoolean_include_user_ids i of None \<Rightarrow> True | Some b \<Rightarrow> b)"

definition handler :: "interaction \<Rightarrow> event list option" where
  "handler i =
     (if \<not> isChatInputCommand i \<or> commandName i \<noteq> ''export-reactions'' then Some []
      else if \<not> inGuild i then Some [Reply msg_not_in_server True]
      else
        let raw = getString_message i;
            includeIds = includeIds_of i;
            ref = parseMessageRef raw
        in case resolve_channel i ref of
             Inl evs \<Rightarrow> Some (DeferReply True # evs)
           | Inr ch \<Rightarrow>
               (case messages_fetch ch (messageId ref) of
                  Inl err \<Rightarrow>
                    Some [DeferReply True, MessagesFetch (messageId ref), ConsoleError err,
                          EditReply msg_message_fetch_failed]
                | Inr msg \<Rightarrow>
                    map_option (\<lambda>evs. [DeferReply True, MessagesFetch (messageId ref)] @ evs)
                      (export_reply includeIds msg)))"

section \<open>Vocabulary of the properties\<close>

subsection \<open>Message links\<close>

text \<open>
  A string holds a message link at offset \<open>length p\<close> when it is \<open>p\<close>, then
  \<^verbatim>\<open>discord.com/channels/\<close>, then three runs of digits separated by \<^verbatim>\<open>/\<close>,
  then \<open>q\<close>.
\<close>

definition no_digit_first :: "string \<Rightarrow> bool" where
  "no_digit_first q = (case q of [] \<Rightarrow> True | c # cs \<Rightarrow> \<not> is_digit c)"

definition digit_string :: "string \<Rightarrow> bool" where
  "digit_string s = (s \<noteq> [] \<and> list_all is_digit s)"

definition url_at :: "string \<Rightarrow> string \<Rightarrow> string \<Rightarrow> string \<Rightarrow> string \<Rightarrow> string \<Rightarrow> bool" where
  "url_at input p g c m q =
     (input = p @ ''discord.com/channels/'' @ g @ ''/'' @ c @ ''/'' @ m @ q
      \<and> digit_string g \<and> digit_string c \<and> digit_string m)"

subsection \<open>The events of a run\<close>

text \<open>
  A page fetch that returned a page, the users of that page, the error of a page fetch
  that threw, a page fetch answered by the group \<open>r\<close>, a reply that carries files, and
  a message fetch.
\<close>

fun is_page :: "event \<Rightarrow> bool" where
  "is_page (UsersFetch opts (Inr b)) = True"
| "is_page e = False"

fun page_users :: "event \<Rightarrow> user list" where
  "page_users (UsersFetch opts (Inr b)) = map snd b"
| "page_users e = []"

fun thrown_by :: "event \<Rightarrow> error option" where
  "thrown_by (UsersFetch opts (Inl err)) = Some err"
| "thrown_by e = None"

fun from_group :: "reaction \<Rightarrow> event \<Rightarrow> bool" where
  "from_group r (UsersFetch opts res) = (res = users_fetch r opts)"
| "from_group r e = False"

fun is_file :: "event \<Rightarrow> bool" where
  "is_file (EditReplyFiles content files) = True"
| "is_file e = False"

fun is_message_fetch :: "event \<Rightarrow> bool" where
  "is_message_fetch (MessagesFetch mid) = True"
| "is_message_fetch e = False"

definition fetched_users :: "event list \<Rightarrow> user list" where
  "fetched_users evs = concat (map page_users evs)"

text \<open>
  The lines of the users \<open>us\<close> under one label, and the lines of one group: those of
  the users its page fetches returned, in the order they came, under the group's label.
\<close>

definition rows :: "bool \<Rightarrow> string \<Rightarrow> user list \<Rightarrow> string" where
  "rows includeIds emoji_label us = concat (map (csv_line includeIds emoji_label) us)"

definition group_rows :: "bool \<Rightarrow> reaction \<Rightarrow> event list \<Rightarrow> string" where
  "group_rows includeIds r evs = rows includeIds (emojiLabel r) (fetched_users evs)"

text \<open>
  The events of a loop that ended normally are page fetches that returned a page; the
  events of a loop that ended by the exception \<open>err\<close> are such fetches and, last, the
  page fetch that threw \<open>err\<close>.
\<close>

definition run_ok :: "completion \<Rightarrow> event list \<Rightarrow> bool" where
  "run_ok c evs =
     (case c of
        Normal \<Rightarrow> list_all is_page evs
      | Throw err \<Rightarrow> evs \<noteq> [] \<and> list_all is_page (butlast evs) \<and> thrown_by (last evs) = Some err)"

text \<open>
  The answers of the platform along one run of the loop of lines 132-140, starting at
  the cursor \<open>lastId\<close>: pages \<open>bs\<close> of 100 entries or more, each fetched after the last
  key of the page before it, and then the answer \<open>fin\<close> that ends the loop, a page of
  fewer than 100 entries or an error thrown. With them: the page fetches of such a run,
  the entries of the last answer, and how the loop ends.
\<close>

fun answers :: "reaction \<Rightarrow> string option \<Rightarrow> batch list \<Rightarrow> error + batch \<Rightarrow> bool" where
  "answers r lastId [] fin =
     (users_fetch r \<lparr>limit = 100, after = lastId\<rparr> = fin
      \<and> (case fin of Inl err \<Rightarrow> True | Inr b \<Rightarrow> length b < 100))"
| "answers r lastId (b # bs) fin =
     (users_fetch r \<lparr>limit = 100, after = lastId\<rparr> = Inr b \<and> \<not> length b < 100
      \<and> answers r (Some (last (map fst b))) bs fin)"

fun fetch_events :: "string option \<Rightarrow> batch list \<Rightarrow> error + batch \<Rightarrow> event list" where
  "fetch_events lastId [] fin = [UsersFetch \<lparr>limit = 100, after = lastId\<rparr> fin]"
| "fetch_events lastId (b # bs) fin =
     UsersFetch \<lparr>limit = 100, after = lastId\<rparr> (Inr b)
       # fetch_events (Some (last (map fst b))) bs fin"

fun last_page :: "error + batch \<Rightarrow> batch" where
  "last_page (Inl err) = []"
| "last_page (Inr b) = b"

fun ending :: "error + batch \<Rightarrow> completion" where
  "ending (Inl err) = Throw err"
| "ending (Inr b) = Normal"

text \<open>
  The invocation reaches the export of \<open>msg\<close>: it is the command, used in a guild,
  its channel resolves and the message fetch returns \<open>msg\<close>. Before the export the
  handler has deferred the reply and fetched the message.
\<close>

definition exports :: "interaction \<Rightarrow> message \<Rightarrow> bool" where
  "exports i msg =
     (isChatInputCommand i \<and> commandName i = ''export-reactions'' \<and> inGuild i
      \<and> (case resolve_channel i (parseMessageRef (getString_message i)) of
            Inl evs \<Rightarrow> False
          | Inr ch \<Rightarrow> messages_fetch ch (messageId (parseMessageRef (getString_message i))) = Inr msg))"

definition prologue :: "interaction \<Rightarrow> event list" where
  "prologue i = [DeferReply True, MessagesFetch (messageId (parseMessageRef (getString_message i)))]"

subsection \<open>The platform's side of paging\<close>

text \<open>
  Modelled from the spec: the platform's \<^verbatim>\<open>fetch-user-page(emojiGroup, afterCursor,
  limit)\<close>, which belongs to the client library and the platform, not to \<^verbatim>\<open>src/\<close>.
  The group holds its users as an ordered collection \<open>us\<close> of entries (key, user); a
  page is at most \<open>limit\<close> entries from the start, or from just behind the entry whose
  key is the cursor ("the last-seen item"). It is used where a property speaks of a group
  of so many users; the loop itself takes any fetch function.
\<close>

definition paged :: "batch \<Rightarrow> fetch_opts \<Rightarrow> error + batch" where
  "paged us opts =
     Inr (take (limit opts)
            (case after opts of
               None \<Rightarrow> us
             | Some c \<Rightarrow> drop 1 (dropWhile (\<lambda>(key, user). key \<noteq> c) us)))"

text \<open>
  The position of a key in the collection's order; a fetch that returns only users of
  the collection, and only users strictly later than the cursor; a page listed in the
  collection's order.
\<close>

definition pos :: "string list \<Rightarrow> string \<Rightarrow> nat" where
  "pos coll k = length (takeWhile (\<lambda>x. x \<noteq> k) coll)"

definition later_only :: "string list \<Rightarrow> (fetch_opts \<Rightarrow> error + batch) \<Rightarrow> bool" where
  "later_only coll fetch =
     (\<forall>opts b. fetch opts = Inr b \<longrightarrow>
        (\<forall>k \<in> set (map fst b). k \<in> set coll
           \<and> (\<forall>c. after opts = Some c \<longrightarrow> pos coll c < pos coll k)))"

definition in_order :: "string list \<Rightarrow> batch \<Rightarrow> bool" where
  "in_order coll b = sorted_wrt (<) (map (\<lambda>(key, user). pos coll key) b)"

subsection \<open>Sample inputs\<close>

text \<open>
  An invocation of the command in a guild with the channel option given, for which the
  platform returns \<open>msg\<close>; an invocation with a bare message ID and no channel; users,
  groups and messages to run the handler on. \<open>tada\<close> and \<open>thumbs_up\<close> are the UTF-8
  bytes of U+1F389 and U+1F44D.
\<close>

definition interaction_on :: "string \<Rightarrow> bool option \<Rightarrow> message \<Rightarrow> interaction" where
  "interaction_on raw opt msg =
     \<lparr>isChatInputCommand = True, commandName = ''export-reactions'', inGuild = True,
      guild = None, getString_message = raw,
      getChannel_channel = Some \<lparr>messages_fetch = (\<lambda>mid. Inr msg)\<rparr>,
      getBoolean_include_user_ids = opt\<rparr>"

definition bare_id_interaction :: interaction where
  "bare_id_interaction =
     \<lparr>isChatInputCommand = True, commandName = ''export-reactions'', inGuild = True,
      guild = None, getString_message = ''1234567890'',
      getChannel_channel = None, getBoolean_include_user_ids = None\<rparr>"

definition sample_user :: "string \<Rightarrow> string \<Rightarrow> string \<times> user" where
  "sample_user name uid = (uid, \<lparr>username = name, discriminator = ''0'', user_id = uid\<rparr>)"

definition failing :: "fetch_opts \<Rightarrow> error + batch" where
  "failing opts = Inl (Thrown ''Missing Access'')"

definition standard_emoji :: "string \<Rightarrow> reaction_emoji option" where
  "standard_emoji n = Some \<lparr>emoji_name = Some n, emoji_id = None\<rparr>"

definition failing_message :: message where
  "failing_message =
     \<lparr>reactions_cache =
        [(''a'', \<lparr>emoji = standard_emoji ''a'', users_fetch = paged [sample_user ''ann'' ''1'']\<rparr>),
         (''b'', \<lparr>emoji = standard_emoji ''b'', users_fetch = failing\<rparr>)]\<rparr>"

definition tada :: string where
  "tada = [CHR 0xF0, CHR 0x9F, CHR 0x8E, CHR 0x89]"

definition thumbs_up :: string where
  "thumbs_up = [CHR 0xF0, CHR 0x9F, CHR 0x91, CHR 0x8D]"

definition party_message :: message where
  "party_message =
     \<lparr>reactions_cache =
        [(tada, \<lparr>emoji = standard_emoji tada,
                 users_fetch = paged [sample_user ''ann'' ''1'', sample_user ''bob'' ''2'']\<rparr>),
         (thumbs_up, \<lparr>emoji = standard_emoji thumbs_up,
                      users_fetch = paged [sample_user ''cy'' ''3'', sample_user ''dee'' ''4'',
                                           sample_user ''eve'' ''5'']\<rparr>)]\<rparr>"

definition partyblob :: reaction where
  "partyblob =
     \<lparr>emoji = Some \<lparr>emoji_name = Some ''partyblob'', emoji_id = Some ''999''\<rparr>,
      users_fetch = paged [sample_user ''ann'' ''1'', sample_user ''bob'' ''2'']\<rparr>"

definition quiet_message :: message where
  "quiet_message =
     \<lparr>reactions_cache = [(''a'', \<lparr>emoji = standard_emoji ''a'', users_fetch = paged []\<rparr>)]\<rparr>"

definition many_users :: "nat \<Rightarrow> batch" where
  "many_users n = map (\<lambda>j. sample_user ''user'' (replicate (Suc j) CHR ''7'')) [0..<n]"

definition crowd :: reaction where
  "crowd = \<lparr>emoji = standard_emoji ''a'', users_fetch = paged (many_users 150)\<rparr>"

definition crowd_message :: message where
  "crowd_message = \<lparr>reactions_cache = [(''a'', crowd)]\<rparr>"

definition flaky :: "fetch_opts \<Rightarrow> error + batch" where
  "flaky opts =
     (case after opts of
        None \<Rightarrow> Inr (take 100 (many_users 150))
      | Some c \<Rightarrow> Inl (Thrown ''Missing Access''))"

definition flaky_message :: message where
  "flaky_message =
     \<lparr>reactions_cache =
        [(''a'', \<lparr>emoji = standard_emoji ''a'', users_fetch = paged [sample_user ''ann'' ''1'']\<rparr>),
         (''b'', \<lparr>emoji = standard_emoji ''b'', users_fetch = flaky\<rparr>),
         (''c'', \<lparr>emoji = standard_emoji ''c'', users_fetch = paged []\<rparr>)]\<rparr>"

definition solo :: reaction where
  "solo = \<lparr>emoji = standard_emoji ''a'', users_fetch = paged [sample_user ''cy'' ''3'']\<rparr>"

definition party_csv :: string where
  "party_csv =
     ''Emoji,User,User ID'' @ [CHR 0x0A]
     @ tada @ '',ann#0,1'' @ [CHR 0x0A]
     @ tada @ '',bob#0,2'' @ [CHR 0x0A]
     @ thumbs_up @ '',cy#0,3'' @ [CHR 0x0A]
     @ thumbs_up @ '',dee#0,4'' @ [CHR 0x0A]
     @ thumbs_up @ '',eve#0,5'' @ [CHR 0x0A]"

definition party_trace :: "event list" where
  "party_trace =
     [DeferReply True, MessagesFetch ''77'',
      UsersFetch \<lparr>limit = 100, after = None\<rparr>
        (Inr [sample_user ''ann'' ''1'', sample_user ''bob'' ''2'']),
      UsersFetch \<lparr>limit = 100, after = None\<rparr>
        (Inr [sample_user ''cy'' ''3'', sample_user ''dee'' ''4'', sample_user ''eve'' ''5'']),
      EditReplyFiles msg_export_complete [\<lparr>att_name = ''reactions.csv'', att_data = party_csv\<rparr>]]"

definition ids_off_interaction :: interaction where
  "ids_off_interaction = interaction_on ''77'' (Some False) party_message"

definition party_csv_no_ids :: string where
  "party_csv_no_ids =
     ''Emoji,User'' @ [CHR 0x0A]
     @ tada @ '',ann#0'' @ [CHR 0x0A]
     @ tada @ '',bob#0'' @ [CHR 0x0A]
     @ thumbs_up @ '',cy#0'' @ [CHR 0x0A]
     @ thumbs_up @ '',dee#0'' @ [CHR 0x0A]
     @ thumbs_up @ '',eve#0'' @ [CHR 0x0A]"

section \<open>Properties of the parser\<close>

lemma literal_iff: "literal p s = Some r \<longleftrightarrow> s = p @ r"
  by (induction p s rule: literal.induct) auto

lemma digits1_iff:
  "digits1 s = Some (d, r) \<longleftrightarrow> digit_string d \<and> s = d @ r \<and> no_digit_first r"
proof
  assume "digits1 s = Some (d, r)"
  then have d: "d = takeWhile is_digit s" and r: "r = dropWhile is_digit s" and ne: "d \<noteq> []"
    by (auto simp: digits1_def Let_def split: if_splits)
  have "list_all is_digit d" unfolding d by (simp add: list_all_iff) (meson set_takeWhileD)
  moreover have "no_digit_first r" unfolding r no_digit_first_def
    by (auto split: list.splits dest: hd_dropWhile[of is_digit s] simp: dropWhile_eq_Cons_conv)
  ultimately show "digit_string d \<and> s = d @ r \<and> no_digit_first r"
    using ne d r by (simp add: digit_string_def)
next
  assume a: "digit_string d \<and> s = d @ r \<and> no_digit_first r"
  then have "takeWhile is_digit s = d"
    by (cases r) (auto simp: digit_string_def no_digit_first_def list_all_iff takeWhile_append2)
  moreover from a have "dropWhile is_digit s = r"
    by (cases r) (auto simp: digit_string_def no_digit_first_def list_all_iff dropWhile_append2)
  ultimately show "digits1 s = Some (d, r)"
    using a by (simp add: digits1_def digit_string_def)
qed

lemma slash_not_digit: "\<not> is_digit CHR ''/''"
  by (simp add: is_digit_def)

lemma no_digit_first_slash: "no_digit_first (CHR ''/'' # r)"
  by (simp add: no_digit_first_def slash_not_digit)

lemma match_here_iff:
  "match_here s = Some (g, c, m) \<longleftrightarrow> (\<exists>q. url_at s [] g c m q \<and> no_digit_first q)"
  (is "?L \<longleftrightarrow> ?R")
proof
  assume ?L
  then obtain s1 s2 s3 s4 s5 s6 where
    "literal ''discord.com/channels/'' s = Some s1" "digits1 s1 = Some (g, s2)"
    "literal ''/'' s2 = Some s3" "digits1 s3 = Some (c, s4)"
    "literal ''/'' s4 = Some s5" "digits1 s5 = Some (m, s6)"
    unfolding match_here_def by (auto split: option.splits prod.splits)
  then have "url_at s [] g c m s6 \<and> no_digit_first s6"
    unfolding url_at_def literal_iff digits1_iff by simp
  then show ?R by blast
next
  assume ?R
  then obtain q where s: "s = ''discord.com/channels/'' @ g @ ''/'' @ c @ ''/'' @ m @ q"
    and d: "digit_string g" "digit_string c" "digit_string m" and q: "no_digit_first q"
    unfolding url_at_def by auto
  have 1: "literal ''discord.com/channels/'' s = Some (g @ ''/'' @ c @ ''/'' @ m @ q)"
    unfolding literal_iff s by simp
  have 2: "digits1 (g @ ''/'' @ c @ ''/'' @ m @ q) = Some (g, ''/'' @ c @ ''/'' @ m @ q)"
    unfolding digits1_iff using d by (simp add: no_digit_first_slash)
  have 3: "literal ''/'' (''/'' @ c @ ''/'' @ m @ q) = Some (c @ ''/'' @ m @ q)"
    unfolding literal_iff by simp
  have 4: "digits1 (c @ ''/'' @ m @ q) = Some (c, ''/'' @ m @ q)"
    unfolding digits1_iff using d by (simp add: no_digit_first_slash)
  have 5: "literal ''/'' (''/'' @ m @ q) = Some (m @ q)"
    unfolding literal_iff by simp
  have 6: "digits1 (m @ q) = Some (m, q)"
    unfolding digits1_iff using d q by simp
  show ?L unfolding match_here_def by (simp only: 1 2 3 4 5 6 option.case prod.case)
qed

lemma url_at_greedy:
  assumes "url_at s p g c m q"
  shows "url_at s p g c (m @ takeWhile is_digit q) (dropWhile is_digit q)
         \<and> no_digit_first (dropWhile is_digit q)"
proof -
  have "no_digit_first (dropWhile is_digit q)"
    unfolding no_digit_first_def
    by (auto split: list.splits dest: hd_dropWhile[of is_digit q] simp: dropWhile_eq_Cons_conv)
  moreover have "digit_string (m @ takeWhile is_digit q)"
    using assms by (auto simp: url_at_def digit_string_def list_all_iff dest: set_takeWhileD)
  ultimately show ?thesis using assms by (simp add: url_at_def)
qed

lemma url_at_drop: "url_at (p @ t) p g c m q \<longleftrightarrow> url_at t [] g c m q"
  by (simp add: url_at_def)

lemma match_here_None_iff:
  "match_here t = None \<longleftrightarrow> (\<forall>g c m q. \<not> url_at t [] g c m q)"
proof
  assume n: "match_here t = None"
  show "\<forall>g c m q. \<not> url_at t [] g c m q"
  proof (intro allI notI)
    fix g c m q assume "url_at t [] g c m q"
    from url_at_greedy[OF this] have "match_here t = Some (g, c, m @ takeWhile is_digit q)"
      unfolding match_here_iff by blast
    with n show False by simp
  qed
next
  assume a: "\<forall>g c m q. \<not> url_at t [] g c m q"
  show "match_here t = None"
  proof (cases "match_here t")
    case (Some r)
    then obtain g c m where "match_here t = Some (g, c, m)" by (cases r) auto
    with a show ?thesis unfolding match_here_iff by blast
  qed simp
qed

lemma match_re_None_iff:
  "match_re s = None \<longleftrightarrow> (\<forall>p g c m q. \<not> url_at s p g c m q)"
proof (induction s)
  case Nil
  have "\<And>p g c m q. url_at [] p g c m q \<Longrightarrow> False" by (simp add: url_at_def)
  moreover have "match_here [] = None" by (simp add: match_here_def)
  ultimately show ?case by auto
next
  case (Cons x xs)
  have split: "(\<exists>p g c m q. url_at (x # xs) p g c m q) \<longleftrightarrow>
        (\<exists>g c m q. url_at (x # xs) [] g c m q) \<or> (\<exists>p g c m q. url_at xs p g c m q)"
  proof
    assume "\<exists>p g c m q. url_at (x # xs) p g c m q"
    then obtain p g c m q where u: "url_at (x # xs) p g c m q" by blast
    show "(\<exists>g c m q. url_at (x # xs) [] g c m q) \<or> (\<exists>p g c m q. url_at xs p g c m q)"
    proof (cases p)
      case Nil with u show ?thesis by blast
    next
      case (Cons y ys)
      with u have "url_at xs ys g c m q" by (simp add: url_at_def)
      then show ?thesis by blast
    qed
  next
    assume "(\<exists>g c m q. url_at (x # xs) [] g c m q) \<or> (\<exists>p g c m q. url_at xs p g c m q)"
    then show "\<exists>p g c m q. url_at (x # xs) p g c m q"
    proof
      assume "\<exists>g c m q. url_at (x # xs) [] g c m q" then show ?thesis by blast
    next
      assume "\<exists>p g c m q. url_at xs p g c m q"
      then obtain p g c m q where "url_at xs p g c m q" by blast
      then have "url_at (x # xs) (x # p) g c m q" by (simp add: url_at_def)
      then show ?thesis by blast
    qed
  qed
  show ?case
  proof (cases "match_here (x # xs)")
    case None
    then show ?thesis using Cons.IH split match_here_None_iff[of "x # xs"] by auto
  next
    case (Some r)
    then have "\<not> (\<forall>g c m q. \<not> url_at (x # xs) [] g c m q)"
      using match_here_None_iff[of "x # xs"] by simp
    then have "\<exists>p g c m q. url_at (x # xs) p g c m q" by blast
    then show ?thesis using Some by simp
  qed
qed

lemma match_re_Some:
  "match_re s = Some (g, c, m) \<Longrightarrow>
     \<exists>p q. url_at s p g c m q \<and> no_digit_first q
       \<and> (\<forall>p' g' c' m' q'. url_at s p' g' c' m' q' \<longrightarrow> length p \<le> length p')"
proof (induction s)
  case Nil
  then show ?case by (simp add: match_here_def)
next
  case (Cons x xs)
  show ?case
  proof (cases "match_here (x # xs)")
    case (Some r)
    with Cons.prems have "match_here (x # xs) = Some (g, c, m)" by simp
    then obtain q where "url_at (x # xs) [] g c m q" "no_digit_first q"
      unfolding match_here_iff by blast
    then show ?thesis by (intro exI[of _ "[]"] exI[of _ q]) simp
  next
    case None
    with Cons.prems have "match_re xs = Some (g, c, m)" by simp
    from Cons.IH[OF this] obtain p q where u: "url_at xs p g c m q" and q: "no_digit_first q"
      and least: "\<forall>p' g' c' m' q'. url_at xs p' g' c' m' q' \<longrightarrow> length p \<le> length p'"
      by blast
    have "url_at (x # xs) (x # p) g c m q" using u by (simp add: url_at_def)
    moreover have "\<forall>p' g' c' m' q'. url_at (x # xs) p' g' c' m' q' \<longrightarrow> length (x # p) \<le> length p'"
    proof (intro allI impI)
      fix p' g' c' m' q' assume a: "url_at (x # xs) p' g' c' m' q'"
      show "length (x # p) \<le> length p'"
      proof (cases p')
        case Nil
        with a None show ?thesis using match_here_None_iff[of "x # xs"] by blast
      next
        case (Cons y ys)
        with a have "url_at xs ys g' c' m' q'" by (simp add: url_at_def)
        with least have "length p \<le> length ys" by blast
        with Cons show ?thesis by simp
      qed
    qed
    ultimately show ?thesis using q by blast
  qed
qed

lemma match_re_here: "match_here t = Some r \<Longrightarrow> match_re t = Some r"
  by (cases t) simp_all

lemma match_here_not_d: "CHR ''d'' \<noteq> x \<Longrightarrow> match_here (x # r) = None"
  by (simp add: match_here_def)

lemma match_re_skip: "CHR ''d'' \<notin> set p \<Longrightarrow> t \<noteq> [] \<Longrightarrow> match_re (p @ t) = match_re t"
  by (induction p) (simp_all add: match_here_not_d)

lemma d_not_digit: "list_all is_digit s \<Longrightarrow> CHR ''d'' \<notin> set s"
proof -
  have "\<not> is_digit CHR ''d''" by (simp add: is_digit_def)
  then show "list_all is_digit s \<Longrightarrow> CHR ''d'' \<notin> set s"
    unfolding list_all_iff by blast
qed

lemma match_here_Nil: "match_here [] = None"
  by (simp add: match_here_def)

lemma match_re_no_d: "CHR ''d'' \<notin> set s \<Longrightarrow> match_re s = None"
  by (induction s) (simp_all add: match_here_not_d match_here_Nil)

text \<open>
  C3. A message link on the platform's host, \<^verbatim>\<open>discord.com/channels/g/c/m\<close> with three
  runs of digits, after any prefix without the letter \<^verbatim>\<open>d\<close> (such as
  \<^verbatim>\<open>https://\<close>, \<^verbatim>\<open>https://ptb.\<close> or \<^verbatim>\<open>https://canary.\<close>) and before
  anything that does not start with a digit, parses to exactly the three runs. A string
  of digits parses to a reference with only the message ID, equal to the string.
\<close>

theorem parseMessageRef_url_and_bare_id:
  "(CHR ''d'' \<notin> set p \<and> digit_string g \<and> digit_string c \<and> digit_string m \<and> no_digit_first q
      \<longrightarrow> parseMessageRef (p @ ''discord.com/channels/'' @ g @ ''/'' @ c @ ''/'' @ m @ q)
            = \<lparr>guildId = Some g, channelId = Some c, messageId = m\<rparr>)
   \<and> (list_all is_digit s
      \<longrightarrow> parseMessageRef s = \<lparr>guildId = None, channelId = None, messageId = s\<rparr>)"
proof (intro conjI impI)
  assume a: "CHR ''d'' \<notin> set p \<and> digit_string g \<and> digit_string c \<and> digit_string m \<and> no_digit_first q"
  let ?t = "''discord.com/channels/'' @ g @ ''/'' @ c @ ''/'' @ m @ q"
  from a have "url_at ?t [] g c m q \<and> no_digit_first q" by (simp add: url_at_def)
  then have "match_here ?t = Some (g, c, m)" unfolding match_here_iff by blast
  then have "match_re ?t = Some (g, c, m)" by (rule match_re_here)
  moreover have "match_re (p @ ?t) = match_re ?t" using a by (intro match_re_skip) simp_all
  ultimately show "parseMessageRef (p @ ?t) = \<lparr>guildId = Some g, channelId = Some c, messageId = m\<rparr>"
    by (simp add: parseMessageRef_def)
next
  assume "list_all is_digit s"
  then have "match_re s = None" by (intro match_re_no_d d_not_digit)
  then show "parseMessageRef s = \<lparr>guildId = None, channelId = None, messageId = s\<rparr>"
    by (simp add: parseMessageRef_def)
qed

theorem parseMessageRef_url_and_bare_id_witness:
  "parseMessageRef ''https://discord.com/channels/12/345/6789''
     = \<lparr>guildId = Some ''12'', channelId = Some ''345'', messageId = ''6789''\<rparr>
   \<and> parseMessageRef ''6789'' = \<lparr>guildId = None, channelId = None, messageId = ''6789''\<rparr>"
  using parseMessageRef_url_and_bare_id [of "''https://''" "''12''" "''345''" "''6789''" "[]" "''6789''"]
  by (simp add: digit_string_def no_digit_first_def is_digit_def)

text \<open>
  C9. \<open>parseMessageRef\<close> is a total function with no error result, and its
  \<open>messageId\<close> is always given: when the input holds a message link, the result is the
  three runs of digits of the leftmost link, the last run taken as long as possible;
  when it holds none, the result is the input itself as the message ID and no other
  field, whatever the input is.
\<close>

theorem parseMessageRef_total:
  "(\<exists>p g c m q. url_at s p g c m q \<and> no_digit_first q
       \<and> (\<forall>p' g' c' m' q'. url_at s p' g' c' m' q' \<longrightarrow> length p \<le> length p')
       \<and> parseMessageRef s = \<lparr>guildId = Some g, channelId = Some c, messageId = m\<rparr>)
   \<or> ((\<forall>p g c m q. \<not> url_at s p g c m q)
       \<and> parseMessageRef s = \<lparr>guildId = None, channelId = None, messageId = s\<rparr>)"
proof (cases "match_re s")
  case None
  then have "\<forall>p g c m q. \<not> url_at s p g c m q" using match_re_None_iff [of s] by blast
  moreover from None have "parseMessageRef s = \<lparr>guildId = None, channelId = None, messageId = s\<rparr>"
    by (simp add: parseMessageRef_def)
  ultimately show ?thesis by blast
next
  case (Some r)
  obtain g c m where r: "r = (g, c, m)" by (cases r) auto
  from Some r have "parseMessageRef s = \<lparr>guildId = Some g, channelId = Some c, messageId = m\<rparr>"
    by (simp add: parseMessageRef_def)
  moreover from match_re_Some[of s g c m] Some r obtain p q where
    "url_at s p g c m q" "no_digit_first q"
    "\<forall>p' g' c' m' q'. url_at s p' g' c' m' q' \<longrightarrow> length p \<le> length p'"
    by auto
  ultimately show ?thesis by blast
qed

theorem parseMessageRef_total_witness:
  "parseMessageRef ''not a link''
     = \<lparr>guildId = None, channelId = None, messageId = ''not a link''\<rparr>
   \<and> parseMessageRef ''see discord.com/channels/1/22/333?x discord.com/channels/4/5/6''
     = \<lparr>guildId = Some ''1'', channelId = Some ''22'', messageId = ''333''\<rparr>"
proof -
  define s1 where "s1 = ''not a link''"
  define s2 where "s2 = ''see discord.com/channels/1/22/333?x discord.com/channels/4/5/6''"
  define r where "r = \<lparr>guildId = Some ''1'', channelId = Some ''22'', messageId = ''333''\<rparr>"
  have "match_re s1 = None"
    unfolding s1_def by (simp add: match_here_def)
  then have n: "\<And>p g c m q. url_at s1 p g c m q \<Longrightarrow> False"
    using match_re_None_iff [of s1] by blast
  have 1: "parseMessageRef s1 = \<lparr>guildId = None, channelId = None, messageId = s1\<rparr>"
    using parseMessageRef_total [of s1] n by blast
  have u: "\<exists>p g c m q. url_at s2 p g c m q"
    unfolding s2_def url_at_def
    by (intro exI [of _ "''see ''"] exI [of _ "''1''"] exI [of _ "''22''"] exI [of _ "''333''"]
          exI [of _ "''?x discord.com/channels/4/5/6''"])
       (simp add: digit_string_def is_digit_def)
  have e: "parseMessageRef s2 = r"
    unfolding s2_def r_def by (simp add: parseMessageRef_def match_here_def digits1_def is_digit_def)
  have 2: "parseMessageRef s2 = r"
    using parseMessageRef_total [of s2] u e by blast
  show ?thesis using 1 2 unfolding s1_def s2_def r_def by simp
qed

section \<open>Properties of the export\<close>

subsection \<open>What a run of the loops looks like\<close>

lemma foldl_addLine:
  "foldl (\<lambda>csv (key, user). addLine incl lab user csv) c b = c @ rows incl lab (map snd b)"
  by (induction b arbitrary: c) (auto simp: rows_def addLine_def)

lemma fetched_users_Cons: "fetched_users (e # evs) = page_users e @ fetched_users evs"
  by (simp add: fetched_users_def)

lemma rows_append: "rows incl lab (us @ vs) = rows incl lab us @ rows incl lab vs"
  by (simp add: rows_def)

lemma run_ok_Cons: "is_page e \<Longrightarrow> run_ok c evs \<Longrightarrow> run_ok c (e # evs)"
  by (cases c) (auto simp: run_ok_def)

lemma paginate_run:
  assumes "paginate incl r lab lastId st = Some y"
  shows "\<exists>evs. events (snd y) = events st @ evs
            \<and> csv (snd y) = csv st @ rows incl lab (fetched_users evs)
            \<and> run_ok (fst y) evs \<and> list_all (from_group r) evs"
  using assms
proof (induction incl r lab lastId st y rule: paginate.raw_induct [rotated 1, consumes 1])
  case (1 paginate' incl r lab lastId st y)
  let ?opts = "\<lparr>limit = 100, after = lastId\<rparr>"
  let ?st1 = "st\<lparr>events := events st @ [UsersFetch ?opts (users_fetch r ?opts)]\<rparr>"
  show ?case
  proof (cases "users_fetch r ?opts")
    case (Inl err)
    with 1(2) have y: "y = (Throw err, ?st1)" by (simp add: Let_def)
    show ?thesis unfolding y
      by (rule exI [of _ "[UsersFetch ?opts (Inl err)]"])
         (simp add: Inl run_ok_def fetched_users_def rows_def)
  next
    case (Inr b)
    let ?st2 = "?st1\<lparr>csv := csv st @ rows incl lab (map snd b)\<rparr>"
    show ?thesis
    proof (cases "length b < 100")
      case True
      with 1(2) Inr have y: "y = (Normal, if b = [] then ?st1 else ?st2)"
        by (simp add: Let_def foldl_addLine split: if_splits)
      show ?thesis unfolding y
        by (rule exI [of _ "[UsersFetch ?opts (Inr b)]"])
           (simp add: Inr run_ok_def fetched_users_def rows_def)
    next
      case False
      with 1(2) Inr have rec: "paginate' incl r lab (Some (last (map fst b))) ?st2 = Some y"
        by (simp add: Let_def foldl_addLine split: if_splits)
      from 1(1) [OF rec] obtain evs where
        e: "events (snd y) = events ?st2 @ evs"
        and c: "csv (snd y) = csv ?st2 @ rows incl lab (fetched_users evs)"
        and ok: "run_ok (fst y) evs" and fg: "list_all (from_group r) evs" by (elim exE conjE)
      show ?thesis
        by (rule exI [of _ "UsersFetch ?opts (Inr b) # evs"])
           (simp add: e c ok fg Inr fetched_users_Cons rows_append run_ok_Cons)
    qed
  qed
qed

lemma run_ok_append: "run_ok Normal evs1 \<Longrightarrow> run_ok c evs2 \<Longrightarrow> run_ok c (evs1 @ evs2)"
  by (cases c) (auto simp: run_ok_def butlast_append)

lemma export_loop_run:
  "export_loop incl rs st = Some (c, st') \<Longrightarrow>
     \<exists>evss. length evss \<le> length rs \<and> (c = Normal \<longrightarrow> length evss = length rs)
       \<and> events st' = events st @ concat evss
       \<and> csv st' = csv st @ concat (map2 (group_rows incl) (map snd rs) evss)
       \<and> run_ok c (concat evss)
       \<and> list_all2 (\<lambda>r evs. list_all (from_group r) evs) (take (length evss) (map snd rs)) evss"
proof (induction rs arbitrary: st)
  case Nil
  then show ?case by (intro exI [of _ "[]"]) (simp add: run_ok_def)
next
  case (Cons kr rest)
  obtain key r where kr: "kr = (key, r)" by (cases kr)
  from Cons.prems kr obtain c1 st1 where
    p: "paginate incl r (emojiLabel r) None st = Some (c1, st1)"
    by (auto split: option.splits)
  from paginate_run [OF p] obtain evs where
    e1: "events st1 = events st @ evs"
    and c1: "csv st1 = csv st @ group_rows incl r evs"
    and ok1: "run_ok c1 evs" and fg1: "list_all (from_group r) evs"
    unfolding group_rows_def by auto
  show ?case
  proof (cases c1)
    case (Throw err)
    with Cons.prems kr p have "c = Throw err" "st' = st1" by simp_all
    then show ?thesis using e1 c1 ok1 fg1 Throw kr
      by (intro exI [of _ "[evs]"]) simp
  next
    case Normal
    with Cons.prems kr p have "export_loop incl rest st1 = Some (c, st')" by simp
    from Cons.IH [OF this] obtain evss where
      l: "length evss \<le> length rest" "c = Normal \<longrightarrow> length evss = length rest"
      and e: "events st' = events st1 @ concat evss"
      and cs: "csv st' = csv st1 @ concat (map2 (group_rows incl) (map snd rest) evss)"
      and ok: "run_ok c (concat evss)"
      and fg: "list_all2 (\<lambda>r evs. list_all (from_group r) evs) (take (length evss) (map snd rest)) evss"
      by auto
    show ?thesis using l e cs e1 c1 fg1 fg kr run_ok_append [OF ok1 [unfolded Normal] ok]
      by (intro exI [of _ "evs # evss"]) simp
  qed
qed

lemma export_reply_cases:
  assumes "export_reply incl msg = Some tr"
  obtains (threw) err st where
      "export_loop incl (reactions_cache msg) \<lparr>csv = header incl, events = []\<rparr> = Some (Throw err, st)"
      and "tr = events st @ [ConsoleError err, EditReply msg_reaction_fetch_failed]"
  | (empty) st where
      "export_loop incl (reactions_cache msg) \<lparr>csv = header incl, events = []\<rparr> = Some (Normal, st)"
      and "csv st = header incl"
      and "tr = events st @ [EditReply msg_no_reactions]"
  | (sent) st where
      "export_loop incl (reactions_cache msg) \<lparr>csv = header incl, events = []\<rparr> = Some (Normal, st)"
      and "csv st \<noteq> header incl"
      and "tr = events st @ [EditReplyFiles msg_export_complete
                          [\<lparr>att_name = ''reactions.csv'', att_data = csv st\<rparr>]]"
  using assms unfolding export_reply_def
  by (auto split: option.splits completion.splits if_splits)

lemma resolve_channel_Inl:
  "resolve_channel i ref = Inl evs \<Longrightarrow>
     evs = [EditReply msg_missing_channel] \<or> evs = [Uncaught TypeError]
       \<or> evs = [EditReply msg_channel_inaccessible]"
  unfolding resolve_channel_def by (auto split: option.splits if_splits)

lemma handler_cases:
  assumes "handler i = Some tr"
  obtains (ignored) "tr = []"
  | (not_in_guild) "tr = [Reply msg_not_in_server True]"
  | (no_channel) evs where
      "resolve_channel i (parseMessageRef (getString_message i)) = Inl evs"
      and "tr = DeferReply True # evs"
  | (no_message) err where
      "tr = [DeferReply True, MessagesFetch (messageId (parseMessageRef (getString_message i))),
             ConsoleError err, EditReply msg_message_fetch_failed]"
  | (export) ch msg evs where
      "isChatInputCommand i \<and> commandName i = ''export-reactions'' \<and> inGuild i"
      and "resolve_channel i (parseMessageRef (getString_message i)) = Inr ch"
      and "messages_fetch ch (messageId (parseMessageRef (getString_message i))) = Inr msg"
      and "export_reply (includeIds_of i) msg = Some evs"
      and "tr = [DeferReply True, MessagesFetch (messageId (parseMessageRef (getString_message i)))] @ evs"
  using assms unfolding handler_def includeIds_of_def Let_def
  by (auto split: if_splits sum.splits)

lemma handler_exports:
  "exports i msg \<Longrightarrow>
     handler i = (case export_reply (includeIds_of i) msg of
                    None \<Rightarrow> None
                  | Some evs \<Rightarrow> Some (prologue i @ evs))"
  unfolding exports_def handler_def prologue_def Let_def
  by (auto split: sum.splits option.splits)

lemma not_page_thrown: "thrown_by e = Some err \<Longrightarrow> \<not> is_page e"
  by (cases e rule: is_page.cases) auto

lemma page_not_file: "is_page e \<Longrightarrow> \<not> is_file e"
  by (cases e rule: is_page.cases) auto

lemma thrown_not_file: "thrown_by e = Some err \<Longrightarrow> \<not> is_file e"
  by (cases e rule: thrown_by.cases) auto

lemma run_ok_no_file: "run_ok c evs \<Longrightarrow> e \<in> set evs \<Longrightarrow> \<not> is_file e"
proof (cases c)
  case Normal
  assume "run_ok c evs" "e \<in> set evs"
  with Normal show ?thesis by (auto simp: run_ok_def list_all_iff page_not_file)
next
  case (Throw err)
  assume a: "run_ok c evs" "e \<in> set evs"
  with Throw have ne: "evs \<noteq> []" and b: "list_all is_page (butlast evs)"
    and l: "thrown_by (last evs) = Some err" by (auto simp: run_ok_def)
  from ne have "evs = butlast evs @ [last evs]" by simp
  with a(2) have "e \<in> set (butlast evs) \<or> e = last evs"
    by (metis Un_iff insert_iff list.set(2) set_append empty_set empty_iff)
  then show ?thesis using b l by (auto simp: list_all_iff page_not_file thrown_not_file)
qed

lemma run_ok_Normal_no_throw:
  "run_ok Normal evs \<Longrightarrow> UsersFetch opts (Inl err) \<notin> set evs"
  by (auto simp: run_ok_def list_all_iff)

lemma run_ok_Throw_which:
  assumes "run_ok (Throw err') evs" "UsersFetch opts (Inl err) \<in> set evs"
  shows "err = err'"
proof -
  from assms(1) have ne: "evs \<noteq> []" and b: "list_all is_page (butlast evs)"
    and l: "thrown_by (last evs) = Some err'" by (auto simp: run_ok_def)
  from ne have "evs = butlast evs @ [last evs]" by simp
  with assms(2) have "UsersFetch opts (Inl err) \<in> set (butlast evs) \<or> UsersFetch opts (Inl err) = last evs"
    by (metis Un_iff insert_iff list.set(2) set_append empty_set empty_iff)
  then show ?thesis
  proof
    assume "UsersFetch opts (Inl err) \<in> set (butlast evs)"
    with b have "is_page (UsersFetch opts (Inl err))" by (auto simp: list_all_iff)
    then show ?thesis by simp
  next
    assume "UsersFetch opts (Inl err) = last evs"
    with l show ?thesis by (metis option.inject thrown_by.simps(1))
  qed
qed

lemma export_loop_events:
  assumes "export_loop incl rs \<lparr>csv = h, events = []\<rparr> = Some (c, st)"
  shows "run_ok c (events st)"
  using export_loop_run [OF assms] by auto

lemma run_ok_no_files: "run_ok c evs \<Longrightarrow> EditReplyFiles content files \<notin> set evs"
  using run_ok_no_file [of c evs "EditReplyFiles content files"] by auto

lemma handler_file:
  assumes "handler i = Some tr" and "EditReplyFiles content files \<in> set tr"
  obtains msg evss where "exports i msg"
    and "length evss = length (reactions_cache msg)"
    and "list_all2 (\<lambda>r evs. list_all (from_group r) evs) (map snd (reactions_cache msg)) evss"
    and "list_all is_page (concat evss)"
    and "tr = prologue i @ concat evss @ [EditReplyFiles content files]"
    and "content = msg_export_complete"
    and "files = [\<lparr>att_name = ''reactions.csv'',
                    att_data = header (includeIds_of i)
                       @ concat (map2 (group_rows (includeIds_of i))
                                   (map snd (reactions_cache msg)) evss)\<rparr>]"
  using assms(1)
proof (cases rule: handler_cases)
  case ignored
  with assms(2) show ?thesis by simp
next
  case not_in_guild
  with assms(2) show ?thesis by simp
next
  case (no_channel evs)
  with assms(2) resolve_channel_Inl [OF no_channel(1)] show ?thesis by auto
next
  case (no_message err')
  with assms(2) show ?thesis by simp
next
  case (export ch msg evs)
  have ex: "exports i msg"
    using export(1,2,3) unfolding exports_def by simp
  have tr: "tr = prologue i @ evs" using export(5) by (simp add: prologue_def)
  from assms(2) have mem: "EditReplyFiles content files \<in> set evs"
    unfolding tr by (simp add: prologue_def)
  from export(4) show ?thesis
  proof (cases rule: export_reply_cases)
    case (threw err st)
    have "run_ok (Throw err) (events st)" by (rule export_loop_events [OF threw(1)])
    from run_ok_no_files [OF this] mem threw(2) show ?thesis by auto
  next
    case (empty st)
    have "run_ok Normal (events st)" by (rule export_loop_events [OF empty(1)])
    from run_ok_no_files [OF this] mem empty(3) show ?thesis by auto
  next
    case (sent st)
    from export_loop_run [OF sent(1)] obtain evss where
      l: "length evss = length (reactions_cache msg)"
      and e: "events st = concat evss"
      and c: "csv st = header (includeIds_of i)
                @ concat (map2 (group_rows (includeIds_of i)) (map snd (reactions_cache msg)) evss)"
      and ok: "run_ok Normal (concat evss)"
      and fg: "list_all2 (\<lambda>r evs. list_all (from_group r) evs)
                 (take (length evss) (map snd (reactions_cache msg))) evss"
      by auto
    from run_ok_no_files [OF ok] mem sent(3) e
    have last: "EditReplyFiles content files = EditReplyFiles msg_export_complete
                  [\<lparr>att_name = ''reactions.csv'', att_data = csv st\<rparr>]"
      by auto
    show ?thesis
    proof (rule that [OF ex l])
      show "list_all2 (\<lambda>r evs. list_all (from_group r) evs) (map snd (reactions_cache msg)) evss"
        using fg l by simp
      show "list_all is_page (concat evss)" using ok by (simp add: run_ok_def)
      show "tr = prologue i @ concat evss @ [EditReplyFiles content files]"
        unfolding tr sent(3) e last ..
      show "content = msg_export_complete" using last by simp
      show "files = [\<lparr>att_name = ''reactions.csv'',
                    att_data = header (includeIds_of i)
                       @ concat (map2 (group_rows (includeIds_of i))
                                   (map snd (reactions_cache msg)) evss)\<rparr>]"
        using last c by simp
    qed
  qed
qed

lemma header_values:
  "header (includeIds_of i) =
     (if getBoolean_include_user_ids i = Some False then ''Emoji,User'' @ [CHR 0x0A]
      else ''Emoji,User,User ID'' @ [CHR 0x0A])"
  by (cases "getBoolean_include_user_ids i") (auto simp: header_def includeIds_of_def)

lemma csv_line_text:
  "csv_line incl lab =
     (\<lambda>u. lab @ '','' @ username u @ ''#'' @ discriminator u
            @ (if incl then '','' @ user_id u else []) @ [CHR 0x0A])"
  by (rule ext) (simp add: csv_line_def)

lemma rows_text:
  "rows incl lab us =
     concat (map (\<lambda>u. lab @ '','' @ username u @ ''#'' @ discriminator u
                        @ (if incl then '','' @ user_id u else []) @ [CHR 0x0A]) us)"
  unfolding rows_def csv_line_text ..

lemma rows_Nil: "rows incl lab [] = []"
  by (simp add: rows_def)

lemma paginate_answers:
  "answers r lastId bs fin \<Longrightarrow>
     paginate incl r lab lastId st
       = Some (ending fin,
               \<lparr>csv = csv st @ rows incl lab (map snd (concat bs @ last_page fin)),
                events = events st @ fetch_events lastId bs fin\<rparr>)"
proof (induction bs arbitrary: lastId st)
  case Nil
  then show ?case
    by (cases fin; cases st)
       (subst paginate.simps, auto simp: Let_def foldl_addLine rows_Nil)+
next
  case (Cons b bs)
  from Cons.prems have f: "users_fetch r \<lparr>limit = 100, after = lastId\<rparr> = Inr b"
    and l: "\<not> length b < 100"
    and a: "answers r (Some (last (map fst b))) bs fin" by simp_all
  from l have ne: "b \<noteq> []" by auto
  show ?case
    by (subst paginate.simps)
       (cases st, simp add: f l ne Let_def foldl_addLine Cons.IH [OF a] rows_append)
qed

lemma export_loop_answers:
  "list_all2 (\<lambda>(key, r) (bs, b). answers r None bs (Inr b)) rs scripts \<Longrightarrow>
     export_loop incl rs st
       = Some (Normal,
               \<lparr>csv = csv st @ concat (map2 (\<lambda>(key, r) (bs, b).
                        rows incl (emojiLabel r) (map snd (concat bs @ b))) rs scripts),
                events = events st
                  @ concat (map (\<lambda>(bs, b). fetch_events None bs (Inr b)) scripts)\<rparr>)"
proof (induction rs scripts arbitrary: st rule: list_all2_induct)
  case Nil
  show ?case by (cases st) simp
next
  case (Cons kr rs s scripts)
  obtain key r where kr: "kr = (key, r)" by (cases kr)
  obtain bs b where s: "s = (bs, b)" by (cases s)
  from Cons(1) kr s have a: "answers r None bs (Inr b)" by simp
  show ?case unfolding kr s
    by (simp add: paginate_answers [OF a] Cons.IH)
qed

lemma export_loop_append:
  "export_loop incl pre st = Some (Normal, st1) \<Longrightarrow>
     export_loop incl (pre @ rest) st = export_loop incl rest st1"
proof (induction pre arbitrary: st)
  case Nil
  then show ?case by simp
next
  case (Cons kr pre)
  obtain key r where kr: "kr = (key, r)" by (cases kr)
  from Cons.prems obtain st' where
    p: "paginate incl r (emojiLabel r) None st = Some (Normal, st')"
    and e: "export_loop incl pre st' = Some (Normal, st1)"
    unfolding kr by (auto split: option.splits completion.splits)
  show ?case unfolding kr by (simp add: p Cons.IH [OF e])
qed

lemma fetch_events_not_file: "e \<in> set (fetch_events lastId bs fin) \<Longrightarrow> \<not> is_file e"
  by (induction bs arbitrary: lastId) auto

lemma handler_throw:
  assumes "exports i msg" and "reactions_cache msg = pre @ (key, r) # post"
    and "list_all2 (\<lambda>(key, g) (bs, b). answers g None bs (Inr b)) pre scripts"
    and "answers r None bs (Inl err)"
  shows "handler i = Some (prologue i
           @ concat (map (\<lambda>(bs, b). fetch_events None bs (Inr b)) scripts)
           @ fetch_events None bs (Inl err)
           @ [ConsoleError err, EditReply msg_reaction_fetch_failed])"
proof -
  let ?st0 = "\<lparr>csv = header (includeIds_of i), events = []\<rparr>"
  note pre = export_loop_answers [OF assms(3), of "includeIds_of i" ?st0]
  have "export_loop (includeIds_of i) (reactions_cache msg) ?st0
        = export_loop (includeIds_of i) ((key, r) # post)
            \<lparr>csv = csv ?st0 @ concat (map2 (\<lambda>(key, r) (bs, b).
                        rows (includeIds_of i) (emojiLabel r) (map snd (concat bs @ b))) pre scripts),
                events = events ?st0
                  @ concat (map (\<lambda>(bs, b). fetch_events None bs (Inr b)) scripts)\<rparr>"
    unfolding assms(2) by (rule export_loop_append [OF pre])
  then show ?thesis
    unfolding handler_exports [OF assms(1)] export_reply_def
    by (simp add: paginate_answers [OF assms(4)])
qed

subsection \<open>Running the handler on the samples\<close>

lemma exports_interaction_on: "exports (interaction_on raw opt msg) msg"
  by (simp add: exports_def interaction_on_def resolve_channel_def)

lemma messageId_digits: "list_all is_digit s \<Longrightarrow> parseMessageRef s = \<lparr>guildId = None, channelId = None, messageId = s\<rparr>"
  by (simp add: parseMessageRef_def match_re_no_d d_not_digit)

lemma handler_failing:
  "handler (interaction_on ''77'' None failing_message) =
     Some [DeferReply True, MessagesFetch ''77'',
           UsersFetch \<lparr>limit = 100, after = None\<rparr> (Inr [sample_user ''ann'' ''1'']),
           UsersFetch \<lparr>limit = 100, after = None\<rparr> (Inl (Thrown ''Missing Access'')),
           ConsoleError (Thrown ''Missing Access''), EditReply msg_reaction_fetch_failed]"
  unfolding handler_exports [OF exports_interaction_on]
  by (simp add: prologue_def
        interaction_on_def messageId_digits is_digit_def includeIds_of_def
        export_reply_def failing_message_def paginate.simps paged_def failing_def)

lemma handler_party:
  "handler (interaction_on ''77'' None party_message) = Some party_trace"
  unfolding handler_exports [OF exports_interaction_on]
  by (simp add: prologue_def interaction_on_def messageId_digits is_digit_def includeIds_of_def
        export_reply_def party_message_def paginate.simps paged_def party_trace_def party_csv_def
        emojiLabel_def standard_emoji_def truthy_def header_def addLine_def csv_line_def
        sample_user_def tada_def thumbs_up_def)

lemma handler_ids_off:
  "handler ids_off_interaction =
     Some [DeferReply True, MessagesFetch ''77'',
      UsersFetch \<lparr>limit = 100, after = None\<rparr>
        (Inr [sample_user ''ann'' ''1'', sample_user ''bob'' ''2'']),
      UsersFetch \<lparr>limit = 100, after = None\<rparr>
        (Inr [sample_user ''cy'' ''3'', sample_user ''dee'' ''4'', sample_user ''eve'' ''5'']),
      EditReplyFiles msg_export_complete
        [\<lparr>att_name = ''reactions.csv'', att_data = party_csv_no_ids\<rparr>]]"
  unfolding ids_off_interaction_def handler_exports [OF exports_interaction_on]
  by (simp add: prologue_def interaction_on_def messageId_digits is_digit_def includeIds_of_def
        export_reply_def party_message_def paginate.simps paged_def party_csv_no_ids_def
        emojiLabel_def standard_emoji_def truthy_def header_def addLine_def csv_line_def
        sample_user_def tada_def thumbs_up_def)

lemma distinct_many_users: "distinct (map fst (many_users n))"
proof -
  have "map fst (many_users n) = map (\<lambda>j. replicate (Suc j) CHR ''7'') [0..<n]"
    by (simp add: many_users_def sample_user_def)
  moreover have "inj_on (\<lambda>j. replicate (Suc j) CHR ''7'') (set [0..<n])"
    by (rule inj_onI) (metis length_replicate nat.inject)
  ultimately show ?thesis by (simp add: distinct_map)
qed

subsection \<open>Errors and early returns\<close>

lemma thrown_fetch_trace:
  assumes "handler i = Some tr" and "UsersFetch opts (Inl err) \<in> set tr"
  shows "\<exists>evs. tr = prologue i @ evs @ [ConsoleError err, EditReply msg_reaction_fetch_failed]
           \<and> run_ok (Throw err) evs
           \<and> \<not> list_ex is_file tr"
  using assms(1)
proof (cases rule: handler_cases)
  case ignored
  with assms(2) show ?thesis by simp
next
  case not_in_guild
  with assms(2) show ?thesis by simp
next
  case (no_channel evs)
  with assms(2) resolve_channel_Inl [OF no_channel(1)] show ?thesis by auto
next
  case (no_message err')
  with assms(2) show ?thesis by simp
next
  case (export ch msg evs)
  have tr: "tr = prologue i @ evs" using export(5) by (simp add: prologue_def)
  from assms(2) have mem: "UsersFetch opts (Inl err) \<in> set evs"
    unfolding tr by (simp add: prologue_def)
  from export(4) show ?thesis
  proof (cases rule: export_reply_cases)
    case (threw err' st)
    have ok: "run_ok (Throw err') (events st)" by (rule export_loop_events [OF threw(1)])
    from mem threw(2) have "UsersFetch opts (Inl err) \<in> set (events st)" by simp
    from run_ok_Throw_which [OF ok this] have e: "err = err'" .
    have "\<forall>e\<in>set tr. \<not> is_file e"
      unfolding tr threw(2) using run_ok_no_file [OF ok] by (auto simp: prologue_def)
    then show ?thesis using ok e unfolding tr threw(2)
      by (intro exI [of _ "events st"]) (simp add: list_ex_iff)
  next
    case (empty st)
    have "run_ok Normal (events st)" by (rule export_loop_events [OF empty(1)])
    from run_ok_Normal_no_throw [OF this] mem empty(3) show ?thesis by simp
  next
    case (sent st)
    have "run_ok Normal (events st)" by (rule export_loop_events [OF sent(1)])
    from run_ok_Normal_no_throw [OF this] mem sent(3) show ?thesis by simp
  qed
qed

text \<open>
  C2. When a page fetch throws, the handler returns, and its run is: the deferred reply,
  the message fetch, the page fetches of the groups before (each ended by a page of
  fewer than 100 users), the full pages of the group at hand, the page fetch that threw,
  the log of the error and the reaction-fetch-failed reply; whatever the buffer held is
  dropped, and no reply of the run carries a file. The first part starts from the
  answers of the platform and shows that the handler returns; the second part is about
  every run that returned with a page fetch that threw in it.
\<close>

theorem fetch_error_aborts_export:
  "(exports i msg \<and> reactions_cache msg = pre @ (key, r) # post
      \<and> list_all2 (\<lambda>(key, g) (bs, b). answers g None bs (Inr b)) pre scripts
      \<and> answers r None bs (Inl err)
    \<longrightarrow> (\<exists>tr. handler i = Some tr
          \<and> tr = prologue i
                 @ concat (map (\<lambda>(bs, b). fetch_events None bs (Inr b)) scripts)
                 @ fetch_events None bs (Inl err)
                 @ [ConsoleError err, EditReply msg_reaction_fetch_failed]
          \<and> \<not> list_ex is_file tr))
   \<and> (handler i = Some tr' \<and> UsersFetch opts (Inl err') \<in> set tr'
    \<longrightarrow> (\<exists>evs. tr' = prologue i @ evs @ [ConsoleError err', EditReply msg_reaction_fetch_failed]
          \<and> run_ok (Throw err') evs
          \<and> \<not> list_ex is_file tr'))"
proof (intro conjI impI)
  assume a: "exports i msg \<and> reactions_cache msg = pre @ (key, r) # post
      \<and> list_all2 (\<lambda>(key, g) (bs, b). answers g None bs (Inr b)) pre scripts
      \<and> answers r None bs (Inl err)"
  let ?tr = "prologue i
                 @ concat (map (\<lambda>(bs, b). fetch_events None bs (Inr b)) scripts)
                 @ fetch_events None bs (Inl err)
                 @ [ConsoleError err, EditReply msg_reaction_fetch_failed]"
  from a have a1: "exports i msg" and a2: "reactions_cache msg = pre @ (key, r) # post"
    and a3: "list_all2 (\<lambda>(key, g) (bs, b). answers g None bs (Inr b)) pre scripts"
    and a4: "answers r None bs (Inl err)" by simp_all
  have h: "handler i = Some ?tr" by (rule handler_throw [OF a1 a2 a3 a4])
  have "\<forall>e \<in> set ?tr. \<not> is_file e"
    by (auto simp: prologue_def dest: fetch_events_not_file)
  then have "\<not> list_ex is_file ?tr" unfolding list_ex_iff by blast
  with h show "\<exists>tr. handler i = Some tr \<and> tr = ?tr \<and> \<not> list_ex is_file tr" by blast
next
  assume "handler i = Some tr' \<and> UsersFetch opts (Inl err') \<in> set tr'"
  then have b1: "handler i = Some tr'" and b2: "UsersFetch opts (Inl err') \<in> set tr'"
    by simp_all
  show "\<exists>evs. tr' = prologue i @ evs @ [ConsoleError err', EditReply msg_reaction_fetch_failed]
          \<and> run_ok (Throw err') evs \<and> \<not> list_ex is_file tr'"
    by (rule thrown_fetch_trace [OF b1 b2])
qed

theorem fetch_error_aborts_export_witness:
  "(\<exists>tr. handler (interaction_on ''77'' None flaky_message) = Some tr
      \<and> tr = [DeferReply True, MessagesFetch ''77'',
               UsersFetch \<lparr>limit = 100, after = None\<rparr> (Inr [sample_user ''ann'' ''1'']),
               UsersFetch \<lparr>limit = 100, after = None\<rparr> (Inr (take 100 (many_users 150))),
               UsersFetch \<lparr>limit = 100, after = Some (replicate 100 CHR ''7'')\<rparr>
                 (Inl (Thrown ''Missing Access'')),
               ConsoleError (Thrown ''Missing Access''),
               EditReply msg_reaction_fetch_failed]
      \<and> \<not> list_ex is_file tr)
   \<and> (\<exists>evs. [DeferReply True, MessagesFetch ''77'',
           UsersFetch \<lparr>limit = 100, after = None\<rparr> (Inr [sample_user ''ann'' ''1'']),
           UsersFetch \<lparr>limit = 100, after = None\<rparr> (Inl (Thrown ''Missing Access'')),
           ConsoleError (Thrown ''Missing Access''), EditReply msg_reaction_fetch_failed]
         = prologue (interaction_on ''77'' None failing_message) @ evs
             @ [ConsoleError (Thrown ''Missing Access''), EditReply msg_reaction_fetch_failed]
       \<and> run_ok (Throw (Thrown ''Missing Access'')) evs
       \<and> \<not> list_ex is_file
            [DeferReply True, MessagesFetch ''77'',
             UsersFetch \<lparr>limit = 100, after = None\<rparr> (Inr [sample_user ''ann'' ''1'']),
             UsersFetch \<lparr>limit = 100, after = None\<rparr> (Inl (Thrown ''Missing Access'')),
             ConsoleError (Thrown ''Missing Access''), EditReply msg_reaction_fetch_failed])"
proof -
  let ?i = "interaction_on ''77'' None flaky_message"
  let ?r = "\<lparr>emoji = standard_emoji ''b'', users_fetch = flaky\<rparr>"
  have l: "last (map fst (take 100 (many_users 150))) = replicate 100 CHR ''7''"
    by (simp add: many_users_def take_map last_map sample_user_def last_conv_nth)
       (simp flip: replicate_Suc)
  have c: "reactions_cache flaky_message
           = [(''a'', \<lparr>emoji = standard_emoji ''a'',
                       users_fetch = paged [sample_user ''ann'' ''1'']\<rparr>)]
             @ (''b'', ?r) # [(''c'', \<lparr>emoji = standard_emoji ''c'', users_fetch = paged []\<rparr>)]"
    by (simp add: flaky_message_def)
  have p: "list_all2 (\<lambda>(key, g) (bs, b). answers g None bs (Inr b))
             [(''a'', \<lparr>emoji = standard_emoji ''a'',
                        users_fetch = paged [sample_user ''ann'' ''1'']\<rparr>)]
             [([], [sample_user ''ann'' ''1''])]"
    by (simp add: paged_def)
  have t: "answers ?r None [take 100 (many_users 150)] (Inl (Thrown ''Missing Access''))"
    by (simp add: flaky_def l) (simp add: many_users_def)
  have pr: "prologue ?i = [DeferReply True, MessagesFetch ''77'']"
    by (simp add: prologue_def interaction_on_def messageId_digits is_digit_def)
  from fetch_error_aborts_export [THEN conjunct1, THEN mp, OF conjI [OF exports_interaction_on conjI [OF c conjI [OF p t]]]]
  have 1: "\<exists>tr. handler ?i = Some tr
      \<and> tr = [DeferReply True, MessagesFetch ''77'',
               UsersFetch \<lparr>limit = 100, after = None\<rparr> (Inr [sample_user ''ann'' ''1'']),
               UsersFetch \<lparr>limit = 100, after = None\<rparr> (Inr (take 100 (many_users 150))),
               UsersFetch \<lparr>limit = 100, after = Some (replicate 100 CHR ''7'')\<rparr>
                 (Inl (Thrown ''Missing Access'')),
               ConsoleError (Thrown ''Missing Access''),
               EditReply msg_reaction_fetch_failed]
      \<and> \<not> list_ex is_file tr"
    by (simp add: pr l)
  have m: "UsersFetch \<lparr>limit = 100, after = None\<rparr> (Inl (Thrown ''Missing Access''))
           \<in> set [DeferReply True, MessagesFetch ''77'',
             UsersFetch \<lparr>limit = 100, after = None\<rparr> (Inr [sample_user ''ann'' ''1'']),
             UsersFetch \<lparr>limit = 100, after = None\<rparr> (Inl (Thrown ''Missing Access'')),
             ConsoleError (Thrown ''Missing Access''), EditReply msg_reaction_fetch_failed]"
    by simp
  note 2 = fetch_error_aborts_export [THEN conjunct2, THEN mp, OF conjI [OF handler_failing m]]
  from 1 2 show ?thesis by (rule conjI)
qed

text \<open>
  C4. With no channel option and no \<^verbatim>\<open>channelId\<close> in the parsed reference, the
  handler returns without a message fetch; when the invocation is the command used in a
  guild (the invocations that reach the parser, lines 86-98), its only reply after the
  deferral is the missing-channel-context error.
\<close>

theorem missing_channel_context:
  assumes "getChannel_channel i = None"
    and "channelId (parseMessageRef (getString_message i)) = None"
  shows "\<exists>tr. handler i = Some tr \<and> \<not> list_ex is_message_fetch tr
           \<and> (isChatInputCommand i \<and> commandName i = ''export-reactions'' \<and> inGuild i
                \<longrightarrow> tr = [DeferReply True, EditReply msg_missing_channel])"
  using assms by (auto simp: handler_def resolve_channel_def)

theorem missing_channel_context_witness:
  "\<exists>tr. handler bare_id_interaction = Some tr
      \<and> \<not> list_ex is_message_fetch tr
      \<and> tr = [DeferReply True, EditReply msg_missing_channel]"
proof -
  have c: "getChannel_channel bare_id_interaction = None"
    by (simp add: bare_id_interaction_def)
  have r: "channelId (parseMessageRef (getString_message bare_id_interaction)) = None"
    by (simp add: bare_id_interaction_def messageId_digits is_digit_def)
  have g: "isChatInputCommand bare_id_interaction
           \<and> commandName bare_id_interaction = ''export-reactions''
           \<and> inGuild bare_id_interaction"
    by (simp add: bare_id_interaction_def)
  from missing_channel_context [OF c r] g show ?thesis by blast
qed

subsection \<open>The header, the labels and the lines\<close>

text \<open>
  C5. The buffer starts with \<^verbatim>\<open>Emoji,User,User ID\<close> and a newline when the option
  \<^verbatim>\<open>include_user_ids\<close> is absent or true, and with \<^verbatim>\<open>Emoji,User\<close> and a newline
  when it is false; every file the handler sends is that header followed by the data.
\<close>

theorem header_row:
  "(getBoolean_include_user_ids i = None \<longrightarrow> header (includeIds_of i) = ''Emoji,User,User ID'' @ [CHR 0x0A])
   \<and> (getBoolean_include_user_ids i = Some True \<longrightarrow> header (includeIds_of i) = ''Emoji,User,User ID'' @ [CHR 0x0A])
   \<and> (getBoolean_include_user_ids i = Some False \<longrightarrow> header (includeIds_of i) = ''Emoji,User'' @ [CHR 0x0A])
   \<and> (handler i = Some tr \<and> EditReplyFiles content files \<in> set tr \<longrightarrow>
        (\<exists>data. files = [\<lparr>att_name = ''reactions.csv'', att_data = header (includeIds_of i) @ data\<rparr>]))"
proof (intro conjI impI)
  assume "handler i = Some tr \<and> EditReplyFiles content files \<in> set tr"
  then have h: "handler i = Some tr" and m: "EditReplyFiles content files \<in> set tr" by simp_all
  from h m show "\<exists>data. files = [\<lparr>att_name = ''reactions.csv'', att_data = header (includeIds_of i) @ data\<rparr>]"
    by (rule handler_file) blast
qed (simp_all add: header_values)

theorem header_row_witness:
  "header (includeIds_of ids_off_interaction) = ''Emoji,User'' @ [CHR 0x0A]
   \<and> (\<exists>data. [\<lparr>att_name = ''reactions.csv'', att_data = party_csv_no_ids\<rparr>]
         = [\<lparr>att_name = ''reactions.csv'',
             att_data = header (includeIds_of ids_off_interaction) @ data\<rparr>])"
proof -
  have o: "getBoolean_include_user_ids ids_off_interaction = Some False"
    by (simp add: ids_off_interaction_def interaction_on_def)
  have m: "EditReplyFiles msg_export_complete
             [\<lparr>att_name = ''reactions.csv'', att_data = party_csv_no_ids\<rparr>]
           \<in> set [DeferReply True, MessagesFetch ''77'',
      UsersFetch \<lparr>limit = 100, after = None\<rparr>
        (Inr [sample_user ''ann'' ''1'', sample_user ''bob'' ''2'']),
      UsersFetch \<lparr>limit = 100, after = None\<rparr>
        (Inr [sample_user ''cy'' ''3'', sample_user ''dee'' ''4'', sample_user ''eve'' ''5'']),
      EditReplyFiles msg_export_complete
        [\<lparr>att_name = ''reactions.csv'', att_data = party_csv_no_ids\<rparr>]]"
    by simp
  from header_row [of ids_off_interaction _ msg_export_complete
      "[\<lparr>att_name = ''reactions.csv'', att_data = party_csv_no_ids\<rparr>]"]
    o handler_ids_off m
  show ?thesis by blast
qed

text \<open>
  C6. The label of a group is \<^verbatim>\<open>name:id\<close> when the emoji has an ID (a string that is
  not empty; a \<^verbatim>\<open>null\<close> name is printed as \<^verbatim>\<open>null\<close> by the template), else the
  name when there is one, else \<^verbatim>\<open>unknown\<close>, also when the reaction has no emoji
  object; the custom emoji partyblob with ID 999 has the label \<^verbatim>\<open>partyblob:999\<close>.
  When every group's pages end normally, the loop over the groups returns, and the
  buffer has grown by one line per user of every page, group after group, each line
  being the label of its own group, a comma, \<^verbatim>\<open>username#discriminator\<close>, the user ID
  when IDs are included, and a newline. In every run that returned, also one ended by
  an error, the lines appended for a group are those of the users its own page fetches
  returned, under its own label.
\<close>

theorem emoji_label_rows:
  "(emoji r = Some e \<and> emoji_id e = Some i \<and> i \<noteq> [] \<and> emoji_name e = Some n
      \<longrightarrow> emojiLabel r = n @ '':'' @ i)
   \<and> (emoji r = Some e \<and> emoji_id e = Some i \<and> i \<noteq> [] \<and> emoji_name e = None
      \<longrightarrow> emojiLabel r = ''null:'' @ i)
   \<and> (emoji r = Some e \<and> (emoji_id e = None \<or> emoji_id e = Some []) \<and> emoji_name e = Some n
      \<longrightarrow> emojiLabel r = n)
   \<and> (emoji r = Some e \<and> (emoji_id e = None \<or> emoji_id e = Some []) \<and> emoji_name e = None
      \<longrightarrow> emojiLabel r = ''unknown'')
   \<and> (emoji r = None \<longrightarrow> emojiLabel r = ''unknown'')
   \<and> emojiLabel \<lparr>emoji = Some \<lparr>emoji_name = Some ''partyblob'', emoji_id = Some ''999''\<rparr>,
                  users_fetch = f\<rparr> = ''partyblob:999''
   \<and> (list_all2 (\<lambda>(key, g) (bs, b). answers g None bs (Inr b)) rs scripts \<longrightarrow>
        export_loop incl rs st
          = Some (Normal,
              \<lparr>csv = csv st @ concat (map2 (\<lambda>(key, g) (bs, b). concat (map (\<lambda>u.
                         emojiLabel g @ '','' @ username u @ ''#'' @ discriminator u
                           @ (if incl then '','' @ user_id u else []) @ [CHR 0x0A])
                         (map snd (concat bs @ b)))) rs scripts),
               events = events st
                 @ concat (map (\<lambda>(bs, b). fetch_events None bs (Inr b)) scripts)\<rparr>))
   \<and> (export_loop incl rs st = Some (c, st') \<longrightarrow>
        (\<exists>evss. length evss \<le> length rs \<and> (c = Normal \<longrightarrow> length evss = length rs)
           \<and> events st' = events st @ concat evss
           \<and> list_all2 (\<lambda>g evs. list_all (from_group g) evs)
                (take (length evss) (map snd rs)) evss
           \<and> csv st' = csv st @ concat (map2 (\<lambda>g evs. concat (map (\<lambda>u.
                         emojiLabel g @ '','' @ username u @ ''#'' @ discriminator u
                           @ (if incl then '','' @ user_id u else []) @ [CHR 0x0A])
                         (fetched_users evs))) (map snd rs) evss)))"
proof (intro conjI impI)
  assume "list_all2 (\<lambda>(key, g) (bs, b). answers g None bs (Inr b)) rs scripts"
  from export_loop_answers [OF this, of incl st]
  show "export_loop incl rs st
          = Some (Normal,
              \<lparr>csv = csv st @ concat (map2 (\<lambda>(key, g) (bs, b). concat (map (\<lambda>u.
                         emojiLabel g @ '','' @ username u @ ''#'' @ discriminator u
                           @ (if incl then '','' @ user_id u else []) @ [CHR 0x0A])
                         (map snd (concat bs @ b)))) rs scripts),
               events = events st
                 @ concat (map (\<lambda>(bs, b). fetch_events None bs (Inr b)) scripts)\<rparr>)"
    unfolding rows_text .
next
  assume "export_loop incl rs st = Some (c, st')"
  from export_loop_run [OF this] obtain evss where
    l: "length evss \<le> length rs" "c = Normal \<longrightarrow> length evss = length rs"
    and e: "events st' = events st @ concat evss"
    and cs: "csv st' = csv st @ concat (map2 (group_rows incl) (map snd rs) evss)"
    and fg: "list_all2 (\<lambda>g evs. list_all (from_group g) evs) (take (length evss) (map snd rs)) evss"
    by auto
  have g: "group_rows incl = (\<lambda>g evs. concat (map (\<lambda>u.
                         emojiLabel g @ '','' @ username u @ ''#'' @ discriminator u
                           @ (if incl then '','' @ user_id u else []) @ [CHR 0x0A])
                         (fetched_users evs)))"
    by (intro ext) (simp only: group_rows_def rows_text)
  show "\<exists>evss. length evss \<le> length rs \<and> (c = Normal \<longrightarrow> length evss = length rs)
           \<and> events st' = events st @ concat evss
           \<and> list_all2 (\<lambda>g evs. list_all (from_group g) evs)
                (take (length evss) (map snd rs)) evss
           \<and> csv st' = csv st @ concat (map2 (\<lambda>g evs. concat (map (\<lambda>u.
                         emojiLabel g @ '','' @ username u @ ''#'' @ discriminator u
                           @ (if incl then '','' @ user_id u else []) @ [CHR 0x0A])
                         (fetched_users evs))) (map snd rs) evss)"
    using l e fg cs unfolding g by (intro exI [of _ evss]) blast
qed (auto simp: emojiLabel_def truthy_def template_def)

theorem emoji_label_rows_witness:
  "emojiLabel partyblob = ''partyblob:999''
   \<and> export_loop True [(''partyblob'', partyblob), (''a'', solo)]
        \<lparr>csv = ''Emoji,User,User ID'' @ [CHR 0x0A], events = []\<rparr>
      = Some (Normal,
          \<lparr>csv = ''Emoji,User,User ID'' @ [CHR 0x0A]
                 @ ''partyblob:999,ann#0,1'' @ [CHR 0x0A]
                 @ ''partyblob:999,bob#0,2'' @ [CHR 0x0A]
                 @ ''a,cy#0,3'' @ [CHR 0x0A],
           events = [UsersFetch \<lparr>limit = 100, after = None\<rparr>
                       (Inr [sample_user ''ann'' ''1'', sample_user ''bob'' ''2'']),
                     UsersFetch \<lparr>limit = 100, after = None\<rparr>
                       (Inr [sample_user ''cy'' ''3''])]\<rparr>)"
proof -
  let ?rs = "[(''partyblob'', partyblob), (''a'', solo)]"
  let ?scripts = "[([], [sample_user ''ann'' ''1'', sample_user ''bob'' ''2'']),
                   ([], [sample_user ''cy'' ''3''])]"
  let ?st = "\<lparr>csv = ''Emoji,User,User ID'' @ [CHR 0x0A], events = []\<rparr>"
  note t = emoji_label_rows [of partyblob "\<lparr>emoji_name = Some ''partyblob'', emoji_id = Some ''999''\<rparr>"
      "''999''" "''partyblob''" "paged []" ?rs ?scripts True ?st Normal ?st]
  have e: "emoji partyblob = Some \<lparr>emoji_name = Some ''partyblob'', emoji_id = Some ''999''\<rparr>"
    by (simp add: partyblob_def)
  have 1: "emojiLabel partyblob = ''partyblob:999''"
    using t [THEN conjunct1] e by simp
  have a: "list_all2 (\<lambda>(key, g) (bs, b). answers g None bs (Inr b)) ?rs ?scripts"
    by (simp add: partyblob_def solo_def paged_def)
  have s: "emojiLabel solo = ''a''"
    by (simp add: solo_def emojiLabel_def standard_emoji_def truthy_def)
  from t [THEN conjunct2, THEN conjunct2, THEN conjunct2, THEN conjunct2, THEN conjunct2,
          THEN conjunct2, THEN conjunct1, THEN mp, OF a]
  have 2: "export_loop True ?rs ?st
      = Some (Normal,
          \<lparr>csv = ''Emoji,User,User ID'' @ [CHR 0x0A]
                 @ ''partyblob:999,ann#0,1'' @ [CHR 0x0A]
                 @ ''partyblob:999,bob#0,2'' @ [CHR 0x0A]
                 @ ''a,cy#0,3'' @ [CHR 0x0A],
           events = [UsersFetch \<lparr>limit = 100, after = None\<rparr>
                       (Inr [sample_user ''ann'' ''1'', sample_user ''bob'' ''2'']),
                     UsersFetch \<lparr>limit = 100, after = None\<rparr>
                       (Inr [sample_user ''cy'' ''3''])]\<rparr>)"
    by (simp add: 1 s sample_user_def del: export_loop.simps)
  from 1 2 show ?thesis by (rule conjI)
qed

lemma paginate_empty:
  "users_fetch r \<lparr>limit = 100, after = None\<rparr> = Inr [] \<Longrightarrow>
     paginate incl r lab None st
       = Some (Normal, st\<lparr>events := events st @ [UsersFetch \<lparr>limit = 100, after = None\<rparr> (Inr [])]\<rparr>)"
  by (subst paginate.simps) simp

lemma export_loop_empty:
  "\<forall>r \<in> snd ` set rs. users_fetch r \<lparr>limit = 100, after = None\<rparr> = Inr [] \<Longrightarrow>
     export_loop incl rs st
       = Some (Normal, st\<lparr>events := events st
                  @ map (\<lambda>kr. UsersFetch \<lparr>limit = 100, after = None\<rparr> (Inr [])) rs\<rparr>)"
proof (induction rs arbitrary: st)
  case Nil
  show ?case by simp
next
  case (Cons kr rs)
  obtain key r where kr: "kr = (key, r)" by (cases kr)
  from Cons.prems kr have "users_fetch r \<lparr>limit = 100, after = None\<rparr> = Inr []" by simp
  note p = paginate_empty [OF this]
  from Cons.prems have "\<forall>r \<in> snd ` set rs. users_fetch r \<lparr>limit = 100, after = None\<rparr> = Inr []"
    by simp
  note ih = Cons.IH [OF this]
  show ?case unfolding kr by (simp add: p ih)
qed

text \<open>
  C7. When the message has no reaction group, or the first page of every group is empty,
  the run is the deferred reply, the message fetch, one page fetch per group and the
  no-reactions reply; no reply carries a file.
\<close>

theorem no_reactions_no_file:
  assumes "exports i msg"
    and "\<forall>r \<in> snd ` set (reactions_cache msg). users_fetch r \<lparr>limit = 100, after = None\<rparr> = Inr []"
  shows "\<exists>tr. handler i = Some tr
           \<and> tr = prologue i
                  @ map (\<lambda>kr. UsersFetch \<lparr>limit = 100, after = None\<rparr> (Inr [])) (reactions_cache msg)
                  @ [EditReply msg_no_reactions]
           \<and> \<not> list_ex is_file tr"
  unfolding handler_exports [OF assms(1)] export_reply_def export_loop_empty [OF assms(2)]
  by (simp add: prologue_def list_ex_iff image_iff)

theorem no_reactions_no_file_witness:
  "\<exists>tr. handler (interaction_on ''77'' None quiet_message) = Some tr
      \<and> tr = prologue (interaction_on ''77'' None quiet_message)
             @ map (\<lambda>kr. UsersFetch \<lparr>limit = 100, after = None\<rparr> (Inr []))
                 (reactions_cache quiet_message)
             @ [EditReply msg_no_reactions]
      \<and> \<not> list_ex is_file tr"
  by (rule no_reactions_no_file [OF exports_interaction_on])
     (simp add: quiet_message_def paged_def)

text \<open>
  C8. Every file the handler sends is the header followed by one block per reaction
  group, in the order of the groups in the message; the block of a group holds the lines
  of the users that the page fetches of that group returned, under that group's label.
  So the lines of one group are contiguous and those of an earlier group come first.
\<close>

theorem rows_grouped_by_emoji:
  assumes "handler i = Some tr" and "EditReplyFiles content files \<in> set tr"
  shows "\<exists>msg evss. exports i msg
           \<and> length evss = length (reactions_cache msg)
           \<and> list_all2 (\<lambda>r evs. list_all (from_group r) evs) (map snd (reactions_cache msg)) evss
           \<and> tr = prologue i @ concat evss @ [EditReplyFiles content files]
           \<and> files = [\<lparr>att_name = ''reactions.csv'',
                         att_data = header (includeIds_of i)
                           @ concat (map2 (group_rows (includeIds_of i))
                                       (map snd (reactions_cache msg)) evss)\<rparr>]"
  using assms by (rule handler_file) blast

theorem rows_grouped_by_emoji_witness:
  "\<exists>msg evss. exports (interaction_on ''77'' None party_message) msg
      \<and> length evss = length (reactions_cache msg)
      \<and> list_all2 (\<lambda>r evs. list_all (from_group r) evs) (map snd (reactions_cache msg)) evss
      \<and> party_trace = prologue (interaction_on ''77'' None party_message) @ concat evss
           @ [EditReplyFiles msg_export_complete
                [\<lparr>att_name = ''reactions.csv'', att_data = party_csv\<rparr>]]
      \<and> [\<lparr>att_name = ''reactions.csv'', att_data = party_csv\<rparr>]
          = [\<lparr>att_name = ''reactions.csv'',
              att_data = header (includeIds_of (interaction_on ''77'' None party_message))
                @ concat (map2 (group_rows (includeIds_of (interaction_on ''77'' None party_message)))
                            (map snd (reactions_cache msg)) evss)\<rparr>]"
  by (rule rows_grouped_by_emoji [OF handler_party]) (simp add: party_trace_def)

subsection \<open>Paging\<close>

lemma paged_first: "paged us \<lparr>limit = n, after = None\<rparr> = Inr (take n us)"
  by (simp add: paged_def)

lemma dropWhile_key:
  assumes "distinct (map fst us)" and "n < length us"
  shows "dropWhile (\<lambda>(key, user). key \<noteq> fst (us ! n)) us = drop n us"
proof -
  have us: "us = take n us @ us ! n # drop (Suc n) us"
    using assms(2) by (rule id_take_nth_drop)
  have "\<forall>x \<in> set (take n us). (case x of (key, user) \<Rightarrow> key \<noteq> fst (us ! n))"
  proof
    fix x assume "x \<in> set (take n us)"
    then obtain j where j: "j < n" "x = us ! j"
      using assms(2) by (auto simp: in_set_conv_nth)
    have "(map fst us ! j = map fst us ! n) = (j = n)"
      using assms j by (intro nth_eq_iff_index_eq) auto
    with j assms(2) show "case x of (key, user) \<Rightarrow> key \<noteq> fst (us ! n)"
      by (simp add: case_prod_beta)
  qed
  then have "dropWhile (\<lambda>(key, user). key \<noteq> fst (us ! n)) (take n us @ us ! n # drop (Suc n) us)
             = dropWhile (\<lambda>(key, user). key \<noteq> fst (us ! n)) (us ! n # drop (Suc n) us)"
    by (intro dropWhile_append2) blast
  also have "\<dots> = us ! n # drop (Suc n) us" by (simp add: case_prod_beta)
  also have "\<dots> = drop n us" using assms(2) by (simp add: Cons_nth_drop_Suc)
  finally show ?thesis using us by simp
qed

lemma paged_after:
  assumes "distinct (map fst us)" and "n < length us"
  shows "paged us \<lparr>limit = l, after = Some (fst (us ! n))\<rparr> = Inr (take l (drop (Suc n) us))"
  by (simp add: paged_def dropWhile_key [OF assms])

lemma handler_two_pages:
  assumes "exports i msg" and "reactions_cache msg = [(key, r)]"
    and "users_fetch r = paged us" and "distinct (map fst us)" and "length us = 150"
  shows "handler i = Some (prologue i @
            [UsersFetch \<lparr>limit = 100, after = None\<rparr> (Inr (take 100 us)),
             UsersFetch \<lparr>limit = 100, after = Some (fst (us ! 99))\<rparr> (Inr (drop 100 us)),
             EditReplyFiles msg_export_complete
               [\<lparr>att_name = ''reactions.csv'',
                 att_data = header (includeIds_of i)
                   @ concat (map (csv_line (includeIds_of i) (emojiLabel r)) (map snd us))\<rparr>]])
         \<and> length (take 100 us) = 100 \<and> length (drop 100 us) = 50
         \<and> length (map (csv_line (includeIds_of i) (emojiLabel r)) (map snd us)) = 150"
proof -
  let ?incl = "includeIds_of i" and ?lab = "emojiLabel r"
  let ?o1 = "\<lparr>limit = 100, after = None\<rparr>"
  let ?o2 = "\<lparr>limit = 100, after = Some (fst (us ! 99))\<rparr>"
  let ?st0 = "\<lparr>csv = header ?incl, events = []\<rparr>"
  let ?st1 = "\<lparr>csv = header ?incl @ rows ?incl ?lab (map snd (take 100 us)),
              events = [UsersFetch ?o1 (Inr (take 100 us))]\<rparr>"
  let ?st2 = "\<lparr>csv = header ?incl @ rows ?incl ?lab (map snd us),
              events = [UsersFetch ?o1 (Inr (take 100 us)), UsersFetch ?o2 (Inr (drop 100 us))]\<rparr>"
  have f1: "users_fetch r ?o1 = Inr (take 100 us)"
    by (simp add: assms(3) paged_first)
  have f2: "users_fetch r ?o2 = Inr (drop 100 us)"
    using assms(5) by (simp add: assms(3) paged_after [OF assms(4)])
  have l1: "last (map fst (take 100 us)) = fst (us ! 99)"
  proof -
    have "take 100 us \<noteq> []" using assms(5) by auto
    then have "last (map fst (take 100 us)) = fst (last (take 100 us))" by (simp add: last_map)
    also have "last (take 100 us) = take 100 us ! 99"
      using assms(5) \<open>take 100 us \<noteq> []\<close> by (simp add: last_conv_nth)
    also have "\<dots> = us ! 99" by simp
    finally show ?thesis .
  qed
  have rows: "rows ?incl ?lab (map snd (take 100 us)) @ rows ?incl ?lab (map snd (drop 100 us))
              = rows ?incl ?lab (map snd us)"
    by (simp add: rows_append [symmetric] del: map_append flip: map_append)
  have p2: "paginate ?incl r ?lab (Some (fst (us ! 99))) ?st1 = Some (Normal, ?st2)"
    using assms(5) by (subst paginate.simps) (simp add: f2 foldl_addLine rows)
  have p1: "paginate ?incl r ?lab None ?st0 = Some (Normal, ?st2)"
    using assms(5) by (subst paginate.simps) (simp add: f1 foldl_addLine l1 p2)
  have "us \<noteq> []" using assms(5) by auto
  then have "rows ?incl ?lab (map snd us) \<noteq> []"
    by (cases us) (auto simp: rows_def csv_line_def Let_def)
  then have ne: "header ?incl @ rows ?incl ?lab (map snd us) \<noteq> header ?incl" by simp
  have "export_reply ?incl msg = Some
            [UsersFetch ?o1 (Inr (take 100 us)), UsersFetch ?o2 (Inr (drop 100 us)),
             EditReplyFiles msg_export_complete
               [\<lparr>att_name = ''reactions.csv'',
                 att_data = header ?incl @ rows ?incl ?lab (map snd us)\<rparr>]]"
    unfolding export_reply_def assms(2) using ne by (simp add: p1)
  then show ?thesis
    unfolding handler_exports [OF assms(1)] using assms(5) by (simp add: rows_def)
qed

lemma newlines_of_rows:
  assumes "\<forall>u \<in> set us. length (filter (\<lambda>c. c = CHR 0x0A) (f u)) = 1"
  shows "length (filter (\<lambda>c. c = CHR 0x0A) (concat (map f us))) = length us"
  using assms by (induction us) simp_all

text \<open>
  C1. A message with one reaction group of 150 users with distinct keys, served in pages
  by the platform: the handler fetches two pages, the first of 100 users and the second,
  after the key of the 100th user, of 50, and sends a file of the header and 150 lines,
  one per user in order, each line being the group's label, a comma,
  \<^verbatim>\<open>username#discriminator\<close>, the user ID when IDs are included, and a newline. When
  neither the label nor a user's fields hold a newline, the data has exactly 150
  newlines.
\<close>

theorem one_group_of_150_users:
  assumes "exports i msg" and "reactions_cache msg = [(key, r)]"
    and "users_fetch r = paged us" and "distinct (map fst us)" and "length us = 150"
  shows "\<exists>data. handler i = Some (prologue i @
            [UsersFetch \<lparr>limit = 100, after = None\<rparr> (Inr (take 100 us)),
             UsersFetch \<lparr>limit = 100, after = Some (fst (us ! 99))\<rparr> (Inr (drop 100 us)),
             EditReplyFiles msg_export_complete
               [\<lparr>att_name = ''reactions.csv'', att_data = header (includeIds_of i) @ data\<rparr>]])
         \<and> data = concat (map (\<lambda>u. emojiLabel r @ '','' @ username u @ ''#'' @ discriminator u
                                  @ (if includeIds_of i then '','' @ user_id u else [])
                                  @ [CHR 0x0A])
                           (map snd us))
         \<and> length (take 100 us) = 100 \<and> length (drop 100 us) = 50 \<and> length (map snd us) = 150
         \<and> (CHR 0x0A \<notin> set (emojiLabel r)
              \<and> (\<forall>u \<in> set (map snd us). CHR 0x0A \<notin> set (username u)
                     \<and> CHR 0x0A \<notin> set (discriminator u) \<and> CHR 0x0A \<notin> set (user_id u))
            \<longrightarrow> length (filter (\<lambda>c. c = CHR 0x0A) data) = 150)"
proof (intro exI conjI impI)
  let ?row = "\<lambda>u. emojiLabel r @ '','' @ username u @ ''#'' @ discriminator u
                    @ (if includeIds_of i then '','' @ user_id u else []) @ [CHR 0x0A]"
  show "handler i = Some (prologue i @
            [UsersFetch \<lparr>limit = 100, after = None\<rparr> (Inr (take 100 us)),
             UsersFetch \<lparr>limit = 100, after = Some (fst (us ! 99))\<rparr> (Inr (drop 100 us)),
             EditReplyFiles msg_export_complete
               [\<lparr>att_name = ''reactions.csv'',
                 att_data = header (includeIds_of i) @ concat (map ?row (map snd us))\<rparr>]])"
    using handler_two_pages [OF assms, THEN conjunct1] unfolding csv_line_text .
  show "concat (map ?row (map snd us)) = concat (map ?row (map snd us))" ..
  show "length (take 100 us) = 100" "length (drop 100 us) = 50" "length (map snd us) = 150"
    using assms(5) by simp_all
  assume n: "CHR 0x0A \<notin> set (emojiLabel r)
              \<and> (\<forall>u \<in> set (map snd us). CHR 0x0A \<notin> set (username u)
                     \<and> CHR 0x0A \<notin> set (discriminator u) \<and> CHR 0x0A \<notin> set (user_id u))"
  have "\<forall>u \<in> set (map snd us). length (filter (\<lambda>c. c = CHR 0x0A) (?row u)) = 1"
  proof
    fix u assume "u \<in> set (map snd us)"
    with n have "filter (\<lambda>c. c = CHR 0x0A) (emojiLabel r) = []"
      "filter (\<lambda>c. c = CHR 0x0A) (username u) = []"
      "filter (\<lambda>c. c = CHR 0x0A) (discriminator u) = []"
      "filter (\<lambda>c. c = CHR 0x0A) (user_id u) = []"
      unfolding filter_empty_conv by blast+
    then show "length (filter (\<lambda>c. c = CHR 0x0A) (?row u)) = 1" by simp
  qed
  from newlines_of_rows [OF this] assms(5)
  show "length (filter (\<lambda>c. c = CHR 0x0A) (concat (map ?row (map snd us)))) = 150" by simp
qed

theorem one_group_of_150_users_witness:
  "\<exists>data. handler (interaction_on ''77'' None crowd_message)
       = Some [DeferReply True, MessagesFetch ''77'',
               UsersFetch \<lparr>limit = 100, after = None\<rparr> (Inr (take 100 (many_users 150))),
               UsersFetch \<lparr>limit = 100, after = Some (replicate 100 CHR ''7'')\<rparr>
                 (Inr (drop 100 (many_users 150))),
               EditReplyFiles msg_export_complete
                 [\<lparr>att_name = ''reactions.csv'',
                   att_data = ''Emoji,User,User ID'' @ [CHR 0x0A] @ data\<rparr>]]
     \<and> data = concat (map (\<lambda>j. ''a,user#0,'' @ replicate (Suc j) CHR ''7'' @ [CHR 0x0A]) [0..<150])
     \<and> length (take 100 (many_users 150)) = 100 \<and> length (drop 100 (many_users 150)) = 50
     \<and> length (filter (\<lambda>c. c = CHR 0x0A) data) = 150"
proof -
  let ?i = "interaction_on ''77'' None crowd_message"
  have c: "reactions_cache crowd_message = [(''a'', crowd)]"
    by (simp add: crowd_message_def)
  have f: "users_fetch crowd = paged (many_users 150)" by (simp add: crowd_def)
  have l: "length (many_users 150) = 150" by (simp add: many_users_def)
  have i: "includeIds_of ?i = True"
    by (simp add: includeIds_of_def interaction_on_def)
  have e: "emojiLabel crowd = ''a''"
    by (simp add: crowd_def emojiLabel_def standard_emoji_def truthy_def)
  have pr: "prologue ?i = [DeferReply True, MessagesFetch ''77'']"
    by (simp add: prologue_def interaction_on_def messageId_digits is_digit_def)
  have k: "fst (many_users 150 ! 99) = replicate 100 CHR ''7''"
    by (simp add: many_users_def sample_user_def) (simp flip: replicate_Suc)
  have d: "map (\<lambda>u. ''a'' @ '','' @ username u @ ''#'' @ discriminator u
                      @ (if True then '','' @ user_id u else []) @ [CHR 0x0A])
               (map snd (many_users 150))
           = map (\<lambda>j. ''a,user#0,'' @ replicate (Suc j) CHR ''7'' @ [CHR 0x0A]) [0..<150]"
    by (simp add: many_users_def sample_user_def)
  have n: "CHR 0x0A \<notin> set (emojiLabel crowd)
              \<and> (\<forall>u \<in> set (map snd (many_users 150)). CHR 0x0A \<notin> set (username u)
                     \<and> CHR 0x0A \<notin> set (discriminator u) \<and> CHR 0x0A \<notin> set (user_id u))"
    by (auto simp: e many_users_def sample_user_def)
  from one_group_of_150_users [OF exports_interaction_on c f distinct_many_users l, of "''77''" None]
  obtain data where
    h: "handler ?i = Some (prologue ?i @
            [UsersFetch \<lparr>limit = 100, after = None\<rparr> (Inr (take 100 (many_users 150))),
             UsersFetch \<lparr>limit = 100, after = Some (fst (many_users 150 ! 99))\<rparr>
               (Inr (drop 100 (many_users 150))),
             EditReplyFiles msg_export_complete
               [\<lparr>att_name = ''reactions.csv'', att_data = header (includeIds_of ?i) @ data\<rparr>]])"
    and dd: "data = concat (map (\<lambda>u. emojiLabel crowd @ '','' @ username u @ ''#'' @ discriminator u
                                  @ (if includeIds_of ?i then '','' @ user_id u else [])
                                  @ [CHR 0x0A])
                           (map snd (many_users 150)))"
    and l1: "length (take 100 (many_users 150)) = 100"
    and l2: "length (drop 100 (many_users 150)) = 50"
    and cnt: "CHR 0x0A \<notin> set (emojiLabel crowd)
              \<and> (\<forall>u \<in> set (map snd (many_users 150)). CHR 0x0A \<notin> set (username u)
                     \<and> CHR 0x0A \<notin> set (discriminator u) \<and> CHR 0x0A \<notin> set (user_id u))
            \<longrightarrow> length (filter (\<lambda>c. c = CHR 0x0A) data) = 150"
    by blast
  from dd have dd': "data = concat (map (\<lambda>j. ''a,user#0,'' @ replicate (Suc j) CHR ''7'' @ [CHR 0x0A]) [0..<150])"
    unfolding e i d .
  from h have h': "handler ?i = Some [DeferReply True, MessagesFetch ''77'',
               UsersFetch \<lparr>limit = 100, after = None\<rparr> (Inr (take 100 (many_users 150))),
               UsersFetch \<lparr>limit = 100, after = Some (replicate 100 CHR ''7'')\<rparr>
                 (Inr (drop 100 (many_users 150))),
               EditReplyFiles msg_export_complete
                 [\<lparr>att_name = ''reactions.csv'',
                   att_data = ''Emoji,User,User ID'' @ [CHR 0x0A] @ data\<rparr>]]"
    unfolding pr k i by (simp add: header_def)
  from cnt n have "length (filter (\<lambda>c. c = CHR 0x0A) data) = 150" by (rule mp)
  with h' dd' l1 l2 show ?thesis by (intro exI [of _ data] conjI)
qed

lemma increasing_span:
  "sorted_wrt (<) (ps :: nat list) \<Longrightarrow> ps \<noteq> [] \<Longrightarrow> hd ps + length ps \<le> last ps + 1"
proof (induction ps)
  case Nil
  then show ?case by simp
next
  case (Cons p ps)
  show ?case
  proof (cases ps)
    case Nil
    then show ?thesis by simp
  next
    case (Cons q qs)
    with Cons.prems have "p < q" by simp
    moreover from Cons.IH Cons.prems Cons have "hd ps + length ps \<le> last ps + 1" by simp
    ultimately show ?thesis using Cons by simp
  qed
qed

lemma in_order_span:
  assumes "in_order coll b" and "b \<noteq> []"
  shows "pos coll (fst (hd b)) + length b \<le> pos coll (last (map fst b)) + 1"
proof -
  let ?ps = "map (\<lambda>(key, user). pos coll key) b"
  from assms have "hd ?ps + length ?ps \<le> last ?ps + 1"
    unfolding in_order_def by (intro increasing_span) simp_all
  moreover have "hd ?ps = pos coll (fst (hd b))"
    using assms(2) by (simp add: hd_map case_prod_beta)
  moreover have "last ?ps = pos coll (last (map fst b))"
    using assms(2) by (simp add: last_map case_prod_beta)
  ultimately show ?thesis by simp
qed

lemma pos_less: "k \<in> set coll \<Longrightarrow> pos coll k < length coll"
  unfolding pos_def by (induction coll) auto

lemma later_onlyD:
  assumes "later_only coll (users_fetch r)" and "users_fetch r \<lparr>limit = 100, after = lastId\<rparr> = Inr b"
    and "b \<noteq> []"
  shows "last (map fst b) \<in> set coll"
    and "lastId = Some c \<Longrightarrow> pos coll c < pos coll (last (map fst b))"
proof -
  from assms(3) have "map fst b \<noteq> []" by simp
  then have "last (map fst b) \<in> set (map fst b)" by (rule last_in_set)
  with assms(1,2) show "last (map fst b) \<in> set coll"
    and "lastId = Some c \<Longrightarrow> pos coll c < pos coll (last (map fst b))"
    unfolding later_only_def by (metis fetch_opts.select_convs(2))+
qed

lemma paginate_from_cursor:
  assumes "later_only coll (users_fetch r)"
  shows "c \<in> set coll \<Longrightarrow> length coll - pos coll c \<le> n \<Longrightarrow>
           \<exists>y. paginate incl r lab (Some c) st = Some y
              \<and> length (events (snd y)) \<le> length (events st) + n"
proof (induction n arbitrary: c st)
  case 0
  with pos_less [of c coll] show ?case by simp
next
  case (Suc n)
  let ?opts = "\<lparr>limit = 100, after = Some c\<rparr>"
  show ?case
  proof (cases "users_fetch r ?opts")
    case (Inl err)
    then show ?thesis by (subst paginate.simps) simp
  next
    case (Inr b)
    show ?thesis
    proof (cases "length b < 100")
      case True
      with Inr show ?thesis by (subst paginate.simps) (simp add: Let_def)
    next
      case False
      then have ne: "b \<noteq> []" by auto
      let ?k = "last (map fst b)"
      let ?st2 = "st\<lparr>events := events st @ [UsersFetch ?opts (Inr b)],
                    csv := foldl (\<lambda>csv (key, user). addLine incl lab user csv) (csv st) b\<rparr>"
      from later_onlyD [OF assms Inr ne] have k: "?k \<in> set coll" and adv: "pos coll c < pos coll ?k"
        by simp_all
      with Suc.prems have "length coll - pos coll ?k \<le> n" by simp
      from Suc.IH [OF k this, of ?st2] obtain y where
        y: "paginate incl r lab (Some ?k) ?st2 = Some y"
        and len: "length (events (snd y)) \<le> length (events ?st2) + n" by blast
      have "paginate incl r lab (Some c) st = paginate incl r lab (Some ?k) ?st2"
        using False Inr ne by (subst paginate.simps) (simp add: Let_def)
      with y len show ?thesis by simp
    qed
  qed
qed

lemma pos_append_Cons:
  "k \<notin> set xs \<Longrightarrow> pos (xs @ k # ys) k = length xs"
  unfolding pos_def by (induction xs) auto

lemma pos_later:
  "k \<notin> set xs \<Longrightarrow> k \<noteq> c \<Longrightarrow> length xs < pos (xs @ c # ys) k"
  unfolding pos_def by (induction xs) auto

lemma paged_later_only:
  assumes "distinct (map fst us)"
  shows "later_only (map fst us) (paged us)"
  unfolding later_only_def
proof (intro allI impI ballI conjI)
  fix opts b k c
  assume b: "paged us opts = Inr b" and k: "k \<in> set (map fst b)"
  have sub: "set b \<subseteq> set us"
    using b unfolding paged_def
    by (auto split: option.splits dest!: in_set_takeD in_set_dropD set_dropWhileD)
  with k show "k \<in> set (map fst us)" by auto
  assume c: "after opts = Some c"
  show "pos (map fst us) c < pos (map fst us) k"
  proof (cases "c \<in> set (map fst us)")
    case False
    then have "dropWhile (\<lambda>(key, user). key \<noteq> c) us = []" by (auto simp: case_prod_beta)
    with b c k show ?thesis by (simp add: paged_def)
  next
    case True
    then obtain n where n: "n < length us" "c = fst (us ! n)"
      by (auto simp: in_set_conv_nth)
    from b c have b': "b = take (limit opts) (drop (Suc n) us)"
      unfolding paged_def n(2) by (simp add: dropWhile_key [OF assms n(1)])
    have us: "us = take n us @ us ! n # drop (Suc n) us"
      using n(1) by (rule id_take_nth_drop)
    then have m: "map fst us = map fst (take n us) @ c # map fst (drop (Suc n) us)"
      unfolding n(2) by (metis list.simps(9) map_append)
    from assms have d: "distinct (map fst (take n us) @ c # map fst (drop (Suc n) us))"
      unfolding m [symmetric] .
    from k b' have kin: "k \<in> set (map fst (drop (Suc n) us))"
      by (auto dest: in_set_takeD)
    with d have k1: "k \<notin> set (map fst (take n us))" and k2: "k \<noteq> c"
      and c1: "c \<notin> set (map fst (take n us))"
      by auto
    have "pos (map fst us) c = length (map fst (take n us))"
      unfolding m by (rule pos_append_Cons [OF c1])
    moreover have "length (map fst (take n us)) < pos (map fst us) k"
      unfolding m by (rule pos_later [OF k1 k2])
    ultimately show ?thesis by simp
  qed
qed

lemma pos_nth: "distinct coll \<Longrightarrow> j < length coll \<Longrightarrow> pos coll (coll ! j) = j"
proof -
  assume d: "distinct coll" and j: "j < length coll"
  have c: "coll = take j coll @ coll ! j # drop (Suc j) coll"
    using j by (rule id_take_nth_drop)
  from d have "distinct (take j coll @ coll ! j # drop (Suc j) coll)" using c by simp
  then have "coll ! j \<notin> set (take j coll)" by simp
  then have "pos (take j coll @ coll ! j # drop (Suc j) coll) (coll ! j) = length (take j coll)"
    by (rule pos_append_Cons)
  with c j show ?thesis by simp
qed

lemma in_order_take:
  assumes "distinct (map fst us)"
  shows "in_order (map fst us) (take n us)"
  unfolding in_order_def sorted_wrt_iff_nth_less
proof (intro allI impI)
  fix i j
  assume ij: "i < j" and j: "j < length (map (\<lambda>(key, user). pos (map fst us) key) (take n us))"
  then have jl: "j < length us" "j < n" and il: "i < length us" "i < n" by simp_all
  have "\<And>m. m < length us \<Longrightarrow> m < n \<Longrightarrow>
          map (\<lambda>(key, user). pos (map fst us) key) (take n us) ! m = m"
  proof -
    fix m assume m: "m < length us" "m < n"
    then have "map (\<lambda>(key, user). pos (map fst us) key) (take n us) ! m
               = pos (map fst us) (map fst us ! m)"
      by (simp add: case_prod_beta)
    also have "\<dots> = m" using assms m by (intro pos_nth) simp_all
    finally show "map (\<lambda>(key, user). pos (map fst us) key) (take n us) ! m = m" .
  qed
  from this [OF il] this [OF jl] ij
  show "map (\<lambda>(key, user). pos (map fst us) key) (take n us) ! i
        < map (\<lambda>(key, user). pos (map fst us) key) (take n us) ! j" by simp
qed

text \<open>
  C10. When the fetch of a group returns only users of a finite collection, and after a
  cursor only users strictly later than it in the collection's order, the loop of lines
  132-140 returns, after at most one fetch more than the collection has users. A page
  that does not end the loop has at least 100 users and moves the cursor to a strictly
  later user; when the page is listed in the collection's order, the cursor moves past
  100 more users.
\<close>

theorem pagination_terminates:
  assumes "later_only coll (users_fetch r)"
  shows "(\<exists>c st'. paginate incl r lab None st = Some (c, st')
            \<and> length (events st') \<le> length (events st) + length coll + 1)
         \<and> (\<forall>lastId b. users_fetch r \<lparr>limit = 100, after = lastId\<rparr> = Inr b \<and> \<not> length b < 100
              \<longrightarrow> last (map fst b) \<in> set coll
                \<and> (\<forall>c. lastId = Some c \<longrightarrow> pos coll c < pos coll (last (map fst b))))
         \<and> (\<forall>lastId b. users_fetch r \<lparr>limit = 100, after = lastId\<rparr> = Inr b \<and> \<not> length b < 100
                \<and> in_order coll b
              \<longrightarrow> 100 \<le> pos coll (last (map fst b)) + 1
                \<and> (\<forall>c. lastId = Some c \<longrightarrow> pos coll c + 100 \<le> pos coll (last (map fst b))))"
proof (intro conjI)
  let ?opts = "\<lparr>limit = 100, after = None\<rparr>"
  show "\<exists>c st'. paginate incl r lab None st = Some (c, st')
            \<and> length (events st') \<le> length (events st) + length coll + 1"
  proof (cases "users_fetch r ?opts")
    case (Inl err)
    then show ?thesis by (subst paginate.simps) simp
  next
    case (Inr b)
    show ?thesis
    proof (cases "length b < 100")
      case True
      with Inr show ?thesis by (subst paginate.simps) (simp add: Let_def)
    next
      case False
      then have ne: "b \<noteq> []" by auto
      let ?k = "last (map fst b)"
      let ?st2 = "st\<lparr>events := events st @ [UsersFetch ?opts (Inr b)],
                    csv := foldl (\<lambda>csv (key, user). addLine incl lab user csv) (csv st) b\<rparr>"
      from later_onlyD(1) [OF assms Inr ne] have k: "?k \<in> set coll" .
      from paginate_from_cursor [OF assms k, of "length coll" incl lab ?st2] obtain y where
        y: "paginate incl r lab (Some ?k) ?st2 = Some y"
        and len: "length (events (snd y)) \<le> length (events ?st2) + length coll" by auto
      have "paginate incl r lab None st = paginate incl r lab (Some ?k) ?st2"
        using False Inr ne by (subst paginate.simps) (simp add: Let_def)
      with y len show ?thesis by (cases y) simp
    qed
  qed
next
  show "\<forall>lastId b. users_fetch r \<lparr>limit = 100, after = lastId\<rparr> = Inr b \<and> \<not> length b < 100
              \<longrightarrow> last (map fst b) \<in> set coll
                \<and> (\<forall>c. lastId = Some c \<longrightarrow> pos coll c < pos coll (last (map fst b)))"
  proof (intro allI impI)
    fix lastId b
    assume a: "users_fetch r \<lparr>limit = 100, after = lastId\<rparr> = Inr b \<and> \<not> length b < 100"
    then have ne: "b \<noteq> []" by auto
    from later_onlyD [OF assms conjunct1 [OF a] ne]
    show "last (map fst b) \<in> set coll
                \<and> (\<forall>c. lastId = Some c \<longrightarrow> pos coll c < pos coll (last (map fst b)))"
      by blast
  qed
next
  show "\<forall>lastId b. users_fetch r \<lparr>limit = 100, after = lastId\<rparr> = Inr b \<and> \<not> length b < 100
                \<and> in_order coll b
              \<longrightarrow> 100 \<le> pos coll (last (map fst b)) + 1
                \<and> (\<forall>c. lastId = Some c \<longrightarrow> pos coll c + 100 \<le> pos coll (last (map fst b)))"
  proof (intro allI impI)
    fix lastId b
    assume a: "users_fetch r \<lparr>limit = 100, after = lastId\<rparr> = Inr b \<and> \<not> length b < 100
                \<and> in_order coll b"
    then have f: "users_fetch r \<lparr>limit = 100, after = lastId\<rparr> = Inr b"
      and len: "100 \<le> length b" and ord: "in_order coll b" by simp_all
    from len have ne: "b \<noteq> []" by auto
    note span = in_order_span [OF ord ne]
    have first: "\<forall>c. lastId = Some c \<longrightarrow> pos coll c < pos coll (fst (hd b))"
    proof (intro allI impI)
      fix c assume "lastId = Some c"
      moreover from ne have "fst (hd b) \<in> set (map fst b)" by simp
      ultimately show "pos coll c < pos coll (fst (hd b))"
        using assms f unfolding later_only_def by (metis fetch_opts.select_convs(2))
    qed
    show "100 \<le> pos coll (last (map fst b)) + 1
                \<and> (\<forall>c. lastId = Some c \<longrightarrow> pos coll c + 100 \<le> pos coll (last (map fst b)))"
    proof (intro conjI allI impI)
      show "100 \<le> pos coll (last (map fst b)) + 1" using span len by simp
    next
      fix c assume "lastId = Some c"
      with first have "pos coll c < pos coll (fst (hd b))" by blast
      with span len show "pos coll c + 100 \<le> pos coll (last (map fst b))" by simp
    qed
  qed
qed

theorem pagination_terminates_witness:
  "(\<exists>c st'. paginate True crowd ''a'' None \<lparr>csv = header True, events = []\<rparr> = Some (c, st')
      \<and> length (events st') \<le> length (events \<lparr>csv = header True, events = []\<rparr>)
            + length (map fst (many_users 150)) + 1)
   \<and> 100 \<le> pos (map fst (many_users 150)) (last (map fst (take 100 (many_users 150)))) + 1"
proof -
  have lo: "later_only (map fst (many_users 150)) (users_fetch crowd)"
    by (simp add: crowd_def paged_later_only distinct_many_users)
  note t = pagination_terminates [OF lo, of True "''a''" "\<lparr>csv = header True, events = []\<rparr>"]
  have p: "users_fetch crowd \<lparr>limit = 100, after = None\<rparr> = Inr (take 100 (many_users 150))
           \<and> \<not> length (take 100 (many_users 150)) < 100
           \<and> in_order (map fst (many_users 150)) (take 100 (many_users 150))"
    by (simp add: crowd_def paged_first in_order_take distinct_many_users) (simp add: many_users_def)
  from t [THEN conjunct2, THEN conjunct2, THEN spec, THEN spec, THEN mp, OF p]
  have "100 \<le> pos (map fst (many_users 150)) (last (map fst (take 100 (many_users 150)))) + 1"
    by (rule conjunct1)
  with t [THEN conjunct1] show ?thesis by (rule conjI)
qed

end
